theory Spec2Isabelle
  imports Main "HOL-Library.Sublist" "HOL-Library.Multiset"
begin

section \<open>The store\<close>

text \<open>
  \<^verbatim>\<open>initDB\<close> creates two tables:
  \<^verbatim>\<open>paths (id INTEGER PRIMARY KEY, path TEXT NOT NULL UNIQUE)\<close> and
  \<^verbatim>\<open>files (id INTEGER PRIMARY KEY, path_id INTEGER NOT NULL, filename TEXT NOT NULL,
  size INTEGER, create_time DATETIME, FOREIGN KEY(path_id) REFERENCES paths(id))\<close>.
  A table is the list of its rows in insertion order. No connection of the program
  switches \<^verbatim>\<open>PRAGMA foreign_keys\<close> on, so SQLite does not enforce the foreign key:
  the tables are plain lists and nothing in \<open>db\<close> ties \<open>f_path_id\<close> to a row of
  \<open>paths\<close>.
\<close>

record path_row =
  p_id :: int
  p_path :: string

record file_row =
  f_id :: int
  f_path_id :: int
  f_filename :: string
  f_size :: int
  f_create_time :: string

record db =
  paths :: "path_row list"
  files :: "file_row list"

text \<open>
  The rowid SQLite gives a row inserted without an explicit \<^verbatim>\<open>id\<close>: 1 in an empty
  table, otherwise one more than the largest id in the table (the ids this program
  produces stay far below the 63-bit limit at which SQLite picks ids differently).
\<close>

definition next_rowid :: "int list \<Rightarrow> int" where
  "next_rowid ids = (if ids = [] then 1 else Max (set ids) + 1)"

section \<open>The query endpoint\<close>

text \<open>The Go struct \<^verbatim>\<open>FileInfo\<close> that one result row is scanned into.\<close>

record FileInfo =
  Path :: string
  FileName :: string
  Size :: int
  CreateTime :: string

text \<open>
  How SQLite reads a text value when it compares it: as a C string, which ends before
  the first NUL byte, and character by character with \<^verbatim>\<open>sqlite3Utf8Read\<close>. A byte below
  \<^verbatim>\<open>0xC0\<close> is a character of its own. A byte from \<^verbatim>\<open>0xC0\<close> starts a character whose
  value begins with the entry of \<^verbatim>\<open>sqlite3Utf8Trans1\<close> and takes six bits from every
  byte \<^verbatim>\<open>0x80..0xBF\<close> that follows, however many there are, in 32-bit unsigned
  arithmetic; a value below \<^verbatim>\<open>0x80\<close>, a surrogate, \<^verbatim>\<open>0xFFFE\<close> and \<^verbatim>\<open>0xFFFF\<close> are read
  as \<^verbatim>\<open>0xFFFD\<close>. \<open>utf8_chars_from acc bs\<close> reads \<open>bs\<close> when \<open>acc\<close> holds the value of the
  character that is being read, if one is.
\<close>

definition c_string :: "string \<Rightarrow> string" where
  "c_string s = takeWhile (\<lambda>c. c \<noteq> CHR 0x00) s"

definition sqlite3Utf8Trans1 :: "nat \<Rightarrow> nat" where
  "sqlite3Utf8Trans1 b =
     (if b < 0xE0 then b mod 32
      else if b < 0xF0 then b mod 16
      else if b < 0xF8 then b mod 8
      else if b < 0xFC then b mod 4
      else if b < 0xFE then b mod 2
      else 0)"

definition utf8_fix :: "nat \<Rightarrow> nat" where
  "utf8_fix c = (if c < 0x80 \<or> c div 0x800 = 0x1B \<or> c div 2 = 0x7FFF then 0xFFFD else c)"

definition utf8_flush :: "nat option \<Rightarrow> nat list" where
  "utf8_flush acc = (case acc of None \<Rightarrow> [] | Some c \<Rightarrow> [utf8_fix c])"

fun utf8_chars_from :: "nat option \<Rightarrow> string \<Rightarrow> nat list" where
  "utf8_chars_from acc [] = utf8_flush acc"
| "utf8_chars_from acc (b # bs) =
     (let n = (of_char b :: nat) in
      case (acc, 0x80 \<le> n \<and> n < 0xC0) of
        (Some c, True) \<Rightarrow> utf8_chars_from (Some ((c * 64 + n mod 64) mod 2 ^ 32)) bs
      | _ \<Rightarrow>
          utf8_flush acc @
          (if 0xC0 \<le> n then utf8_chars_from (Some (sqlite3Utf8Trans1 n)) bs
           else n # utf8_chars_from None bs))"

definition sqlite_chars :: "string \<Rightarrow> nat list" where
  "sqlite_chars s = utf8_chars_from None (c_string s)"

text \<open>
  SQLite's \<^verbatim>\<open>LIKE\<close> without an \<^verbatim>\<open>ESCAPE\<close> clause (\<^verbatim>\<open>patternCompare\<close>), on the characters of
  the pattern and of the value: \<^verbatim>\<open>%\<close> (37) matches any run of characters, also the empty
  one, \<^verbatim>\<open>_\<close> (95) matches exactly one character, and any other character matches an
  equal one, or, when both are below \<^verbatim>\<open>0x80\<close>, one that \<^verbatim>\<open>sqlite3Tolower\<close> maps to the same
  (\<^verbatim>\<open>case_sensitive_like\<close> is off unless a connection turns it on, and none does).
\<close>

definition sqlite3Tolower :: "nat \<Rightarrow> nat" where
  "sqlite3Tolower c = (if 65 \<le> c \<and> c \<le> 90 then c + 32 else c)"

definition like_char :: "nat \<Rightarrow> nat \<Rightarrow> bool" where
  "like_char c c2 = (c = c2 \<or> (sqlite3Tolower c = sqlite3Tolower c2 \<and> c < 0x80 \<and> c2 < 0x80))"

fun sqlite_like :: "nat list \<Rightarrow> nat list \<Rightarrow> bool" where
  "sqlite_like [] s = (s = [])"
| "sqlite_like (p # ps) [] = (p = 37 \<and> sqlite_like ps [])"
| "sqlite_like (p # ps) (c # cs) =
     (if p = 37 then sqlite_like ps (c # cs) \<or> sqlite_like (p # ps) cs
      else (like_char p c \<or> p = 95) \<and> sqlite_like ps cs)"

text \<open>
  The SQL function behind the operator: a pattern of more than
  \<^verbatim>\<open>SQLITE_MAX_LIKE_PATTERN_LENGTH\<close> bytes (50000, the limit no connection changes) is an
  error of the statement, raised when the function is first called; otherwise the
  result of the comparison.
\<close>

definition like_too_complex :: "string \<Rightarrow> bool" where
  "like_too_complex pat = (50000 < length pat)"

definition likeFunc :: "string \<Rightarrow> string \<Rightarrow> bool" where
  "likeFunc pat s = sqlite_like (sqlite_chars pat) (sqlite_chars s)"

text \<open>
  The statement of the handler,
  \<^verbatim>\<open>SELECT p.path, f.filename, f.size, f.create_time FROM files f
  JOIN paths p ON f.path_id = p.id WHERE f.filename LIKE ?\<close>:
  an inner join, so a file row appears once for every row of \<open>paths\<close> with its
  \<open>path_id\<close>, and not at all when there is none. SQLite promises no row order; the
  model lists the rows file by file. The filter is applied to every row of \<open>files\<close>, so
  with a pattern that is too long the statement fails on the first row, in the step
  that \<^verbatim>\<open>db.Query\<close> makes before it returns; on an empty table it is never applied.
\<close>

definition select_files :: "db \<Rightarrow> string \<Rightarrow> FileInfo list" where
  "select_files d pat =
     [\<lparr>Path = p_path p, FileName = f_filename f, Size = f_size f,
       CreateTime = f_create_time f\<rparr>.
        f \<leftarrow> files d, likeFunc pat (f_filename f), p \<leftarrow> paths d, f_path_id f = p_id p]"

definition select_fails :: "db \<Rightarrow> string \<Rightarrow> bool" where
  "select_fails d pat = (files d \<noteq> [] \<and> like_too_complex pat)"

text \<open>
  A Go slice is either \<^verbatim>\<open>nil\<close> or holds elements. \<^verbatim>\<open>var files []FileInfo\<close> declares
  the \<^verbatim>\<open>nil\<close> slice, and \<^verbatim>\<open>append\<close> to any slice gives one that is not \<^verbatim>\<open>nil\<close>.
\<close>

type_synonym 'a slice = "'a list option"

definition append_slice :: "'a slice \<Rightarrow> 'a \<Rightarrow> 'a slice" where
  "append_slice s x = (case s of None \<Rightarrow> Some [x] | Some xs \<Rightarrow> Some (xs @ [x]))"

text \<open>
  JSON values, and \<^verbatim>\<open>encoding/json\<close> on a \<^verbatim>\<open>[]FileInfo\<close>: a struct becomes an object
  with the keys of its field tags, a slice becomes an array, except that the \<^verbatim>\<open>nil\<close>
  slice becomes \<^verbatim>\<open>null\<close>. A JSON string is held as the UTF-8 bytes of the string a
  reader of the document gets.
\<close>

datatype json =
    JNull
  | JNumber int
  | JString string
  | JArray "json list"
  | JObject "(string \<times> json) list"

text \<open>
  \<^verbatim>\<open>utf8.DecodeRuneInString\<close> at the head of a string, as far as the encoder uses it:
  the number of bytes of the well-formed UTF-8 sequence the string starts with (no
  overlong form, no surrogate, nothing beyond \<^verbatim>\<open>U+10FFFF\<close>), and 0 when it starts with
  none.
\<close>

definition in_range :: "nat \<Rightarrow> nat \<Rightarrow> char \<Rightarrow> bool" where
  "in_range lo hi c = (lo \<le> (of_char c :: nat) \<and> (of_char c :: nat) \<le> hi)"

fun rune_size :: "string \<Rightarrow> nat" where
  "rune_size [] = 0"
| "rune_size (b # bs) =
     (let n = (of_char b :: nat) in
      if n < 0x80 then 1
      else if 0xC2 \<le> n \<and> n \<le> 0xDF then
        (case bs of c1 # _ \<Rightarrow> if in_range 0x80 0xBF c1 then 2 else 0 | _ \<Rightarrow> 0)
      else if 0xE0 \<le> n \<and> n \<le> 0xEF then
        (case bs of
           c1 # c2 # _ \<Rightarrow>
             if in_range (if n = 0xE0 then 0xA0 else 0x80) (if n = 0xED then 0x9F else 0xBF) c1
                \<and> in_range 0x80 0xBF c2
             then 3 else 0
         | _ \<Rightarrow> 0)
      else if 0xF0 \<le> n \<and> n \<le> 0xF4 then
        (case bs of
           c1 # c2 # c3 # _ \<Rightarrow>
             if in_range (if n = 0xF0 then 0x90 else 0x80) (if n = 0xF4 then 0x8F else 0xBF) c1
                \<and> in_range 0x80 0xBF c2 \<and> in_range 0x80 0xBF c3
             then 4 else 0
         | _ \<Rightarrow> 0)
      else 0)"

text \<open>
  A Go string as the encoder writes it: well-formed sequences as they are, and
  \<^verbatim>\<open>U+FFFD\<close> (the bytes \<^verbatim>\<open>EF BF BD\<close>) for every byte that starts none.
\<close>

fun json_string :: "string \<Rightarrow> string" where
  "json_string [] = []"
| "json_string (b # bs) =
     (if rune_size (b # bs) = 0 then [CHR 0xEF, CHR 0xBF, CHR 0xBD] @ json_string bs
      else b # take (rune_size (b # bs) - 1) bs @ json_string (drop (rune_size (b # bs) - 1) bs))"

definition encode_FileInfo :: "FileInfo \<Rightarrow> json" where
  "encode_FileInfo fi =
     JObject [(''path'', JString (json_string (Path fi))),
              (''filename'', JString (json_string (FileName fi))),
              (''size'', JNumber (Size fi)),
              (''create_time'', JString (json_string (CreateTime fi)))]"

definition Encode :: "FileInfo slice \<Rightarrow> json" where
  "Encode s = (case s of None \<Rightarrow> JNull | Some xs \<Rightarrow> JArray (map encode_FileInfo xs))"

text \<open>
  What a response carries: the text \<^verbatim>\<open>http.Error\<close> writes (the two fixed messages of
  the handler, or the text of a database error), or the JSON document.
\<close>

datatype message = MissingParameters | InvalidQueryType | DatabaseError

datatype payload = ErrorText message | JsonBody json

record response =
  status :: nat
  body :: payload

definition http_Error :: "message \<Rightarrow> nat \<Rightarrow> response" where
  "http_Error m code = \<lparr>status = code, body = ErrorText m\<rparr>"

text \<open>
  \<^verbatim>\<open>r.URL.Query()\<close> maps a parameter name to the list of its values; \<^verbatim>\<open>Get\<close> returns
  the first value, and the empty string when the parameter is absent.
\<close>

type_synonym url_values = "string \<Rightarrow> string list"

definition Get :: "url_values \<Rightarrow> string \<Rightarrow> string" where
  "Get q k = (case q k of [] \<Rightarrow> [] | v # _ \<Rightarrow> v)"

text \<open>
  What a run of the handler meets in the database layer. \<^verbatim>\<open>sql.Open\<close> or \<^verbatim>\<open>db.Query\<close>
  may return an error; \<^verbatim>\<open>rows.Next\<close> may end the loop before the row with a given
  index because the statement failed there (the handler does not look at
  \<^verbatim>\<open>rows.Err\<close>); \<^verbatim>\<open>rows.Scan\<close> may fail on the row with a given index. The column
  \<^verbatim>\<open>create_time\<close> is declared \<^verbatim>\<open>DATETIME\<close>: the driver hands its text over as a time
  when it reads as one, and \<^verbatim>\<open>Scan\<close> renders a time into the string it fills;
  \<open>time_text\<close> is what the stored text becomes on this way (the text itself for the
  timestamps \<^verbatim>\<open>scanAndSave\<close> writes).
\<close>

record query_env =
  open_err :: bool
  query_err :: bool
  next_err :: "nat \<Rightarrow> bool"
  scan_err :: "nat \<Rightarrow> bool"
  time_text :: "string \<Rightarrow> string"

definition no_query_faults :: query_env where
  "no_query_faults =
     \<lparr>open_err = False, query_err = False, next_err = (\<lambda>_. False), scan_err = (\<lambda>_. False),
      time_text = (\<lambda>s. s)\<rparr>"

definition fault_free :: "query_env \<Rightarrow> bool" where
  "fault_free env =
     (\<not> open_err env \<and> \<not> query_err env \<and> (\<forall>i. \<not> next_err env i) \<and> (\<forall>i. \<not> scan_err env i))"

text \<open>
  The loop \<^verbatim>\<open>for rows.Next() { ... rows.Scan(...) ... files = append(files, fi) }\<close>
  over the rows of the statement, from the row with index \<open>i\<close>.
\<close>

fun scan_rows :: "query_env \<Rightarrow> nat \<Rightarrow> FileInfo list \<Rightarrow> FileInfo slice \<Rightarrow> FileInfo slice option" where
  "scan_rows env i [] acc = Some acc"
| "scan_rows env i (r # rs) acc =
     (if next_err env i then Some acc
      else if scan_err env i then None
      else scan_rows env (Suc i) rs
             (append_slice acc (r\<lparr>CreateTime := time_text env (CreateTime r)\<rparr>)))"

text \<open>The handler of \<^verbatim>\<open>/get\<close>, over the committed content \<open>d\<close> of the store.\<close>

definition get_handler :: "query_env \<Rightarrow> db \<Rightarrow> url_values \<Rightarrow> response" where
  "get_handler env d q =
     (let key = Get q ''key''; queryType = Get q ''type'' in
      if key = [] \<or> queryType = [] then http_Error MissingParameters 400
      else if open_err env then http_Error DatabaseError 500
      else if queryType = ''file'' then
        (if query_err env \<or> select_fails d (''%'' @ key @ ''%'')
         then http_Error DatabaseError 500
         else case scan_rows env 0 (select_files d (''%'' @ key @ ''%'')) None of
                None \<Rightarrow> http_Error DatabaseError 500
              | Some fs \<Rightarrow> \<lparr>status = 200, body = JsonBody (Encode fs)\<rparr>)
      else http_Error InvalidQueryType 400)"

text \<open>A request with the two parameters of the documented interface.\<close>

definition request :: "string \<Rightarrow> string \<Rightarrow> url_values" where
  "request key ty = (\<lambda>k. if k = ''key'' then [key] else if k = ''type'' then [ty] else [])"

text \<open>
  \<open>search env d T\<close>: the records \<^verbatim>\<open>/get?key=T&type=file\<close> answers with: the elements
  of the JSON array of a 200 response, and none for any other response.
\<close>

definition search :: "query_env \<Rightarrow> db \<Rightarrow> string \<Rightarrow> json list" where
  "search env d t =
     (case body (get_handler env d (request t ''file'')) of
        JsonBody (JArray xs) \<Rightarrow> xs
      | _ \<Rightarrow> [])"

text \<open>The record of the file row \<open>f\<close> in the directory row \<open>p\<close>, as the endpoint serialises it.\<close>

definition record_of :: "query_env \<Rightarrow> path_row \<Rightarrow> file_row \<Rightarrow> json" where
  "record_of env p f =
     encode_FileInfo \<lparr>Path = p_path p, FileName = f_filename f, Size = f_size f,
                      CreateTime = time_text env (f_create_time f)\<rparr>"

text \<open>
  \<open>T\<close> occurs in \<open>F\<close>, both read as SQLite reads text and with ASCII letters compared
  without regard to case.
\<close>

definition contains_nocase :: "string \<Rightarrow> string \<Rightarrow> bool" where
  "contains_nocase T F =
     sublist (map sqlite3Tolower (sqlite_chars T)) (map sqlite3Tolower (sqlite_chars F))"

text \<open>The index of the example in the specification.\<close>

definition example_db :: db where
  "example_db =
     \<lparr>paths = [\<lparr>p_id = 1, p_path = ''/data/img''\<rparr>, \<lparr>p_id = 2, p_path = ''/data''\<rparr>],
      files = [\<lparr>f_id = 1, f_path_id = 1, f_filename = ''photo.png'', f_size = 7,
                f_create_time = ''2024-01-02T00:00:00Z''\<rparr>,
               \<lparr>f_id = 2, f_path_id = 2, f_filename = ''report.pdf'', f_size = 120,
                f_create_time = ''2024-01-01T00:00:00Z''\<rparr>]\<rparr>"

section \<open>Paths of the crawl\<close>

text \<open>
  The program is built for Linux hosts: the separator is \<^verbatim>\<open>/\<close>, there are no volume
  names, and \<^verbatim>\<open>filepath.ToSlash\<close> returns its argument.
\<close>

definition ToSlash :: "string \<Rightarrow> string" where
  "ToSlash p = p"

text \<open>\<^verbatim>\<open>strings.Split\<close> with a separator of one character.\<close>

fun split_on :: "char \<Rightarrow> string \<Rightarrow> string list" where
  "split_on sep [] = [[]]"
| "split_on sep (c # cs) =
     (if c = sep then [] # split_on sep cs
      else (case split_on sep cs of
              w # ws \<Rightarrow> (c # w) # ws
            | [] \<Rightarrow> [[c]]))"

fun join_slash :: "string list \<Rightarrow> string" where
  "join_slash [] = []"
| "join_slash [x] = x"
| "join_slash (x # y # ys) = x @ ''/'' @ join_slash (y # ys)"

text \<open>
  \<^verbatim>\<open>filepath.Clean\<close>: empty elements and \<^verbatim>\<open>.\<close> are dropped, \<^verbatim>\<open>..\<close> removes the element
  before it, is dropped at the root, and is kept at the start of a relative path. The
  elements kept so far are in \<open>out\<close>, the last one first.
\<close>

fun clean_elems :: "bool \<Rightarrow> string list \<Rightarrow> string list \<Rightarrow> string list" where
  "clean_elems rooted out [] = rev out"
| "clean_elems rooted out (c # cs) =
     (if c = [] \<or> c = ''.'' then clean_elems rooted out cs
      else if c = ''..'' then
        (case out of
           el # rest \<Rightarrow>
             if el = ''..'' then clean_elems rooted (c # out) cs
             else clean_elems rooted rest cs
         | [] \<Rightarrow>
             if rooted then clean_elems rooted out cs
             else clean_elems rooted (c # out) cs)
      else clean_elems rooted (c # out) cs)"

definition Clean :: "string \<Rightarrow> string" where
  "Clean p =
     (let rooted = (take 1 p = ''/'');
          r = (if rooted then ''/'' else []) @ join_slash (clean_elems rooted [] (split_on CHR ''/'' p))
      in if r = [] then ''.'' else r)"

text \<open>\<^verbatim>\<open>filepath.Dir\<close>: everything up to the last separator, cleaned.\<close>

definition Dir :: "string \<Rightarrow> string" where
  "Dir p = Clean (rev (dropWhile (\<lambda>c. c \<noteq> CHR ''/'') (rev p)))"

text \<open>\<^verbatim>\<open>filepath.Base\<close>: the last element, after trailing separators are removed.\<close>

definition Base :: "string \<Rightarrow> string" where
  "Base p =
     (if p = [] then ''.''
      else let q = rev (dropWhile (\<lambda>c. c = CHR ''/'') (rev p));
               r = rev (takeWhile (\<lambda>c. c \<noteq> CHR ''/'') (rev q))
           in if r = [] then ''/'' else r)"

text \<open>
  One call of the function \<^verbatim>\<open>filepath.Walk\<close> is given: the path, whether the call
  carries an error (then nothing else is read), and of \<^verbatim>\<open>info\<close> what the program
  reads: \<^verbatim>\<open>IsDir()\<close>, \<^verbatim>\<open>Size()\<close> and \<^verbatim>\<open>ModTime().Format(time.RFC3339)\<close>. A crawl is the
  list of these calls in the order \<^verbatim>\<open>Walk\<close> makes them.
\<close>

record entry =
  e_path :: string
  e_err :: bool
  e_is_dir :: bool
  e_size :: int
  e_mod_time :: string

text \<open>
  \<^verbatim>\<open>filepath.Walk\<close>: the function is called on every entry in turn, threading the
  variables it has captured, until it returns an error; that error is the result.
\<close>

fun Walk :: "(entry \<Rightarrow> 's \<Rightarrow> 'e option \<times> 's) \<Rightarrow> entry list \<Rightarrow> 's \<Rightarrow> 'e option \<times> 's" where
  "Walk fn [] s = (None, s)"
| "Walk fn (e # es) s =
     (case fn e s of
        (Some err, s') \<Rightarrow> (Some err, s')
      | (None, s') \<Rightarrow> Walk fn es s')"

section \<open>The rebuild\<close>

text \<open>
  The database calls of \<^verbatim>\<open>scanAndSave\<close> that can return an error: \<^verbatim>\<open>sql.Open\<close>,
  \<^verbatim>\<open>db.Begin\<close>, each statement run in the transaction (numbered from 0 in the order
  they are run), and \<^verbatim>\<open>tx.Commit\<close>.
\<close>

record faults =
  open_fails :: bool
  begin_fails :: bool
  stmt_fails :: "nat \<Rightarrow> bool"
  commit_fails :: bool

definition no_faults :: faults where
  "no_faults =
     \<lparr>open_fails = False, begin_fails = False, stmt_fails = (\<lambda>_. False), commit_fails = False\<rparr>"

text \<open>
  \<open>ErrNoRows\<close> is \<^verbatim>\<open>sql.ErrNoRows\<close>, which \<^verbatim>\<open>Scan\<close> returns when the
  \<^verbatim>\<open>INSERT OR IGNORE ... RETURNING id\<close> produced no row.
\<close>

datatype error = ErrOpen | ErrBegin | ErrStmt nat | ErrNoRows | ErrCommit

text \<open>
  A transaction: the tables as its statements see them (\<open>work\<close>), the number of
  statements it has run, and the states of the tables that its statements have
  produced, the latest first (\<open>seen\<close>). Nothing reaches the store before the commit.
\<close>

record txn =
  work :: db
  stmts :: nat
  seen :: "db list"

definition Begin :: "db \<Rightarrow> txn" where
  "Begin disk = \<lparr>work = disk, stmts = 0, seen = []\<rparr>"

definition Rollback :: "db \<Rightarrow> txn \<Rightarrow> db" where
  "Rollback disk t = disk"

definition Commit :: "db \<Rightarrow> txn \<Rightarrow> db" where
  "Commit disk t = work t"

text \<open>One statement that changes the tables by \<open>upd\<close>.\<close>

definition tx_exec :: "faults \<Rightarrow> (db \<Rightarrow> db) \<Rightarrow> txn \<Rightarrow> error option \<times> txn" where
  "tx_exec flt upd t =
     (if stmt_fails flt (stmts t) then (Some (ErrStmt (stmts t)), t\<lparr>stmts := Suc (stmts t)\<rparr>)
      else (None, t\<lparr>work := upd (work t), stmts := Suc (stmts t), seen := upd (work t) # seen t\<rparr>))"

text \<open>\<^verbatim>\<open>tx.Exec("DELETE FROM files; DELETE FROM paths")\<close>: two statements, in this order.\<close>

definition clear_tables :: "faults \<Rightarrow> txn \<Rightarrow> error option \<times> txn" where
  "clear_tables flt t =
     (case tx_exec flt (\<lambda>d. d\<lparr>files := []\<rparr>) t of
        (Some e, t1) \<Rightarrow> (Some e, t1)
      | (None, t1) \<Rightarrow> tx_exec flt (\<lambda>d. d\<lparr>paths := []\<rparr>) t1)"

text \<open>
  \<^verbatim>\<open>tx.QueryRow("INSERT OR IGNORE INTO paths (path) VALUES (?) RETURNING id", dir)\<close>
  followed by \<^verbatim>\<open>Scan\<close>: a path that is in the table already violates \<^verbatim>\<open>UNIQUE\<close>, the
  insert is ignored and returns no row, and \<^verbatim>\<open>Scan\<close> fails with \<^verbatim>\<open>sql.ErrNoRows\<close>.
\<close>

definition insert_path :: "faults \<Rightarrow> string \<Rightarrow> txn \<Rightarrow> (error + int) \<times> txn" where
  "insert_path flt dir t =
     (if stmt_fails flt (stmts t) then (Inl (ErrStmt (stmts t)), t\<lparr>stmts := Suc (stmts t)\<rparr>)
      else if dir \<in> set (map p_path (paths (work t))) then (Inl ErrNoRows, t\<lparr>stmts := Suc (stmts t)\<rparr>)
      else
        let i = next_rowid (map p_id (paths (work t)));
            d = (work t)\<lparr>paths := paths (work t) @ [\<lparr>p_id = i, p_path = dir\<rparr>]\<rparr>
        in (Inr i, t\<lparr>work := d, stmts := Suc (stmts t), seen := d # seen t\<rparr>))"

text \<open>
  \<^verbatim>\<open>tx.Exec("INSERT INTO files (path_id, filename, size, create_time) VALUES (?, ?, ?, ?)", ...)\<close>.
\<close>

definition insert_file :: "faults \<Rightarrow> int \<Rightarrow> string \<Rightarrow> int \<Rightarrow> string \<Rightarrow> txn \<Rightarrow> error option \<times> txn" where
  "insert_file flt pathID filename sz mt t =
     tx_exec flt
       (\<lambda>d. d\<lparr>files := files d @
                 [\<lparr>f_id = next_rowid (map f_id (files d)), f_path_id = pathID,
                   f_filename = filename, f_size = sz, f_create_time = mt\<rparr>]\<rparr>) t"

text \<open>The variables the second walk's function captures.\<close>

record scan_state =
  tx :: txn
  pathCache :: "string \<rightharpoonup> int"
  scannedFiles :: nat

definition init_scan :: "txn \<Rightarrow> scan_state" where
  "init_scan t = \<lparr>tx = t, pathCache = Map.empty, scannedFiles = 0\<rparr>"

text \<open>
  \<^verbatim>\<open>pathID, ok := pathCache[dir]; if !ok { ... pathCache[dir] = pathID }\<close>.
\<close>

definition path_id_for :: "faults \<Rightarrow> string \<Rightarrow> scan_state \<Rightarrow> (error + int) \<times> scan_state" where
  "path_id_for flt dir s =
     (case pathCache s dir of
        Some i \<Rightarrow> (Inr i, s)
      | None \<Rightarrow>
          (case insert_path flt dir (tx s) of
             (Inl e, t) \<Rightarrow> (Inl e, s\<lparr>tx := t\<rparr>)
           | (Inr i, t) \<Rightarrow> (Inr i, s\<lparr>tx := t, pathCache := (pathCache s)(dir \<mapsto> i)\<rparr>)))"

text \<open>The function of the second walk.\<close>

definition walkFn :: "faults \<Rightarrow> entry \<Rightarrow> scan_state \<Rightarrow> error option \<times> scan_state" where
  "walkFn flt e s =
     (if e_err e \<or> e_is_dir e then (None, s)
      else
        let dir = ToSlash (Dir (e_path e)); filename = Base (e_path e) in
        case path_id_for flt dir s of
          (Inl err, s1) \<Rightarrow> (Some err, s1)
        | (Inr pathID, s1) \<Rightarrow>
            (case insert_file flt pathID filename (e_size e) (e_mod_time e) (tx s1) of
               (Some err, t) \<Rightarrow> (Some err, s1\<lparr>tx := t\<rparr>)
             | (None, t) \<Rightarrow> (None, s1\<lparr>tx := t, scannedFiles := Suc (scannedFiles s1)\<rparr>)))"

text \<open>The function of the first walk, which counts the files.\<close>

definition countFn :: "entry \<Rightarrow> nat \<Rightarrow> error option \<times> nat" where
  "countFn e totalFiles = (if e_err e \<or> e_is_dir e then (None, totalFiles) else (None, Suc totalFiles))"

text \<open>
  How \<^verbatim>\<open>scanAndSave\<close> ends: it sends on \<^verbatim>\<open>done\<close> and returns, or \<^verbatim>\<open>log.Fatal\<close> prints the
  error and ends the process with \<^verbatim>\<open>os.Exit(1)\<close>. Its result is that outcome, the
  content of the store afterwards, the table states its transaction has produced, and
  the number of statements its transaction has run (a statement that failed is one of
  them). After a failed \<^verbatim>\<open>Begin\<close> there is no transaction; after a failed statement or
  walk the code calls \<^verbatim>\<open>tx.Rollback()\<close>; after a failed \<^verbatim>\<open>Commit\<close> it exits at once and
  the transaction, which was not committed, is lost with the process.
\<close>

datatype outcome = Done | Fatal error

record scan_result =
  outcome :: outcome
  store :: db
  history :: "db list"
  issued :: nat

definition scanAndSave :: "faults \<Rightarrow> entry list \<Rightarrow> db \<Rightarrow> scan_result" where
  "scanAndSave flt es disk =
     (if open_fails flt
      then \<lparr>outcome = Fatal ErrOpen, store = disk, history = [], issued = 0\<rparr>
      else if begin_fails flt
      then \<lparr>outcome = Fatal ErrBegin, store = disk, history = [], issued = 0\<rparr>
      else
        case clear_tables flt (Begin disk) of
          (Some err, t) \<Rightarrow>
            \<lparr>outcome = Fatal err, store = Rollback disk t, history = seen t, issued = stmts t\<rparr>
        | (None, t) \<Rightarrow>
            (case Walk countFn es 0 of
               (Some err, totalFiles) \<Rightarrow>
                 \<lparr>outcome = Fatal err, store = Rollback disk t, history = seen t,
                  issued = stmts t\<rparr>
             | (None, totalFiles) \<Rightarrow>
                 (case Walk (walkFn flt) es (init_scan t) of
                    (Some err, s) \<Rightarrow>
                      \<lparr>outcome = Fatal err, store = Rollback disk (tx s),
                       history = seen (tx s), issued = stmts (tx s)\<rparr>
                  | (None, s) \<Rightarrow>
                      if commit_fails flt
                      then \<lparr>outcome = Fatal ErrCommit, store = disk, history = seen (tx s),
                            issued = stmts (tx s)\<rparr>
                      else \<lparr>outcome = Done, store = Commit disk (tx s),
                            history = seen (tx s), issued = stmts (tx s)\<rparr>)))"

text \<open>No file row without its directory row.\<close>

definition no_orphans :: "db \<Rightarrow> bool" where
  "no_orphans d = list_all (\<lambda>f. f_path_id f \<in> set (map p_id (paths d))) (files d)"

text \<open>
  The path cache and the table \<open>paths\<close> hold the same directories under the same ids.
\<close>

definition cache_in_sync :: "scan_state \<Rightarrow> bool" where
  "cache_in_sync s =
     (dom (pathCache s) = set (map p_path (paths (work (tx s)))) \<and>
      list_all (\<lambda>r. pathCache s (p_path r) = Some (p_id r)) (paths (work (tx s))))"

text \<open>The tuples (path, filename, size, timestamp) the store holds, through the join.\<close>

definition tuples :: "db \<Rightarrow> (string \<times> string \<times> int \<times> string) set" where
  "tuples d =
     set [(p_path p, f_filename f, f_size f, f_create_time f).
            f \<leftarrow> files d, p \<leftarrow> paths d, f_path_id f = p_id p]"

text \<open>The tuple the rebuild derives from a call of the walk's function on a file.\<close>

definition tuple_of :: "entry \<Rightarrow> string \<times> string \<times> int \<times> string" where
  "tuple_of e = (ToSlash (Dir (e_path e)), Base (e_path e), e_size e, e_mod_time e)"

definition is_file :: "entry \<Rightarrow> bool" where
  "is_file e = (\<not> (e_err e \<or> e_is_dir e))"

section \<open>The process\<close>

text \<open>
  \<^verbatim>\<open>strconv.Atoi\<close>: an optional sign and at least one decimal digit, nothing else, and
  a value that fits the 64-bit \<^verbatim>\<open>int\<close> of the targets.
\<close>

definition digit_of :: "char \<Rightarrow> nat option" where
  "digit_of c = map_of (zip ''0123456789'' [0, 1, 2, 3, 4, 5, 6, 7, 8, 9]) c"

fun digits_value :: "nat \<Rightarrow> string \<Rightarrow> nat option" where
  "digits_value n [] = Some n"
| "digits_value n (c # cs) =
     (case digit_of c of
        None \<Rightarrow> None
      | Some k \<Rightarrow> digits_value (n * 10 + k) cs)"

definition Atoi :: "string \<Rightarrow> int option" where
  "Atoi s =
     (let neg = (take 1 s = ''-'');
          ds = (if take 1 s = ''-'' \<or> take 1 s = ''+'' then drop 1 s else s)
      in if ds = [] then None
         else case digits_value 0 ds of
                None \<Rightarrow> None
              | Some n \<Rightarrow>
                  let v = (if neg then - int n else int n)
                  in if v < - (2 ^ 63) \<or> 2 ^ 63 - 1 < v then None else Some v)"

text \<open>
  The checks of \<^verbatim>\<open>main\<close> on the configured time: two parts around one colon, an hour
  in 0..23 and a minute in 0..59. Any failure is a \<^verbatim>\<open>log.Fatal\<close>.
\<close>

definition parse_time :: "string \<Rightarrow> (int \<times> int) option" where
  "parse_time s =
     (case split_on CHR '':'' s of
        [h, m] \<Rightarrow>
          (case Atoi h of
             None \<Rightarrow> None
           | Some hour \<Rightarrow>
               if hour < 0 \<or> hour > 23 then None
               else (case Atoi m of
                       None \<Rightarrow> None
                     | Some minute \<Rightarrow>
                         if minute < 0 \<or> minute > 59 then None else Some (hour, minute)))
      | _ \<Rightarrow> None)"

text \<open>
  What \<^verbatim>\<open>main\<close> finds when it starts: whether \<^verbatim>\<open>os.Executable\<close>, \<^verbatim>\<open>godotenv.Load\<close> and
  \<^verbatim>\<open>processPath\<close> succeed, the configured time, the result of \<^verbatim>\<open>os.Stat\<close> on
  \<^verbatim>\<open>sql.db\<close>, the content of that file when it is there, whether \<^verbatim>\<open>initDB\<close> and
  \<^verbatim>\<open>AddFunc\<close> succeed, the calls the walk of the configured directory makes, and the
  faults of the first rebuild.
\<close>

datatype stat_result = Present | NotExist | StatFailed

record startup_env =
  executable_ok :: bool
  dotenv_ok :: bool
  path_ok :: bool
  time_env :: string
  db_stat :: stat_result
  disk0 :: db
  initDB_ok :: bool
  tree :: "entry list"
  scan_faults :: faults
  addfunc_ok :: bool

definition empty_db :: db where
  "empty_db = \<lparr>paths = [], files = []\<rparr>"

text \<open>
  What the process does while it starts, in order: \<open>InitDB\<close> is \<^verbatim>\<open>initDB\<close> returning
  without error, \<open>ScanStarted\<close> the call \<^verbatim>\<open>go scanAndSave(...)\<close>, \<open>ScanFinished\<close> the
  receive \<^verbatim>\<open><-done\<close>, \<open>SchedulerStarted\<close> is \<^verbatim>\<open>cronScheduler.Start()\<close>, \<open>ServerStarted\<close>
  the call of \<^verbatim>\<open>http.ListenAndServe\<close>, and \<open>Exited\<close> a \<^verbatim>\<open>log.Fatal\<close>.
\<close>

datatype event = InitDB | ScanStarted | ScanFinished | SchedulerStarted | ServerStarted | Exited

text \<open>The first scan: only when \<^verbatim>\<open>os.IsNotExist\<close> holds of the error of \<^verbatim>\<open>os.Stat\<close>.\<close>

definition first_scan :: "startup_env \<Rightarrow> event list \<times> db \<times> bool" where
  "first_scan env =
     (if db_stat env = NotExist then
        (if \<not> initDB_ok env then ([Exited], empty_db, False)
         else
           let r = scanAndSave (scan_faults env) (tree env) empty_db in
           case outcome r of
             Fatal err \<Rightarrow> ([InitDB, ScanStarted, Exited], store r, False)
           | Done \<Rightarrow> ([InitDB, ScanStarted, ScanFinished], store r, True))
      else ([], disk0 env, True))"

text \<open>\<^verbatim>\<open>main\<close> up to the call of \<^verbatim>\<open>http.ListenAndServe\<close>: its events and the store.\<close>

definition main_startup :: "startup_env \<Rightarrow> event list \<times> db" where
  "main_startup env =
     (if \<not> executable_ok env \<or> \<not> dotenv_ok env \<or> \<not> path_ok env \<or> time_env env = []
      then ([Exited], disk0 env)
      else
        case first_scan env of
          (evs, d, False) \<Rightarrow> (evs, d)
        | (evs, d, True) \<Rightarrow>
            (case parse_time (time_env env) of
               None \<Rightarrow> (evs @ [Exited], d)
             | Some hm \<Rightarrow>
                 if \<not> addfunc_ok env then (evs @ [Exited], d)
                 else (evs @ [SchedulerStarted, ServerStarted], d)))"

text \<open>
  The process once the scheduler and the server have started: the committed content
  of the store, whether the process is still there (\<^verbatim>\<open>log.Fatal\<close> in any goroutine ends
  it), the errors \<^verbatim>\<open>log.Fatal\<close> has printed, and the calls of \<^verbatim>\<open>scanAndSave\<close> that have
  started and not ended, the oldest first. Such a call has begun its transaction
  (\<open>Opened\<close>) or has run its first statement and holds the write lock of the database
  since (\<open>Writing\<close>); with it go the faults its database calls will meet and the calls its
  walks will make.
\<close>

datatype phase = Opened | Writing

record rebuild =
  r_phase :: phase
  r_faults :: faults
  r_tree :: "entry list"

record process =
  disk :: db
  running :: bool
  logged :: "error list"
  rebuilds :: "rebuild list"

definition start :: "db \<Rightarrow> process" where
  "start d = \<lparr>disk = d, running = True, logged = [], rebuilds = []\<rparr>"

text \<open>
  SQLite gives the write lock to one connection at a time. A transaction opened with
  \<^verbatim>\<open>db.Begin()\<close> asks for it with its first statement that writes, here
  \<^verbatim>\<open>DELETE FROM files\<close>, and keeps it until it commits or rolls back; no connection of
  the program sets a busy timeout, so while another connection holds the lock that
  statement fails at once (\<^verbatim>\<open>SQLITE_BUSY\<close>).
\<close>

definition lock_held :: "process \<Rightarrow> bool" where
  "lock_held p = list_ex (\<lambda>r. r_phase r = Writing) (rebuilds p)"

definition busy :: "faults \<Rightarrow> faults" where
  "busy flt = flt\<lparr>stmt_fails := (\<lambda>k. k = 0 \<or> stmt_fails flt k)\<rparr>"

text \<open>\<^verbatim>\<open>log.Fatal(err)\<close>: the error is printed and the process, with all its goroutines, ends.\<close>

definition exit_process :: "error \<Rightarrow> process \<Rightarrow> process" where
  "exit_process err p = p\<lparr>running := False, logged := logged p @ [err], rebuilds := []\<rparr>"

text \<open>
  The end of the call of \<^verbatim>\<open>scanAndSave\<close> with index \<open>i\<close>, given its result: it has
  committed, sends on \<^verbatim>\<open>done\<close> and is over, or it ends the process.
\<close>

definition settle :: "scan_result \<Rightarrow> nat \<Rightarrow> process \<Rightarrow> process" where
  "settle r i p =
     (case outcome r of
        Done \<Rightarrow> p\<lparr>disk := store r, rebuilds := take i (rebuilds p) @ drop (Suc i) (rebuilds p)\<rparr>
      | Fatal err \<Rightarrow> exit_process err (p\<lparr>disk := store r\<rparr>))"

text \<open>
  What happens in the process, one action at a time. \<open>Trigger\<close>: the schedule is due;
  the scheduler is \<^verbatim>\<open>cron.New()\<close> without options, so the library runs the job
  \<^verbatim>\<open>func() { done := make(chan bool); go scanAndSave(configPath, dbPath, done); <-done }\<close>
  in a goroutine of its own, whatever else is running, and the job calls
  \<^verbatim>\<open>scanAndSave\<close>, which opens the database and begins its transaction; neither the job
  nor \<^verbatim>\<open>scanAndSave\<close> reads or writes a variable that tells whether a rebuild is in
  progress. \<open>FirstWrite i\<close>: the call with index \<open>i\<close> runs its first statement.
  \<open>Finish i\<close>: the call with index \<open>i\<close>, which holds the lock, runs to its end. A call
  that fails ends as \<^verbatim>\<open>scanAndSave\<close> does on that failure.
\<close>

datatype action = Trigger faults "entry list" | FirstWrite nat | Finish nat

fun step :: "process \<Rightarrow> action \<Rightarrow> process" where
  "step p (Trigger flt es) =
     (if \<not> running p then p
      else if open_fails flt \<or> begin_fails flt
      then settle (scanAndSave flt es (disk p)) (length (rebuilds p)) p
      else p\<lparr>rebuilds := rebuilds p @ [\<lparr>r_phase = Opened, r_faults = flt, r_tree = es\<rparr>]\<rparr>)"
| "step p (FirstWrite i) =
     (if \<not> running p \<or> length (rebuilds p) \<le> i then p
      else
        let r = rebuilds p ! i in
        if r_phase r \<noteq> Opened then p
        else if lock_held p
        then settle (scanAndSave (busy (r_faults r)) (r_tree r) (disk p)) i p
        else if stmt_fails (r_faults r) 0
        then settle (scanAndSave (r_faults r) (r_tree r) (disk p)) i p
        else p\<lparr>rebuilds := (rebuilds p)[i := r\<lparr>r_phase := Writing\<rparr>]\<rparr>)"
| "step p (Finish i) =
     (if \<not> running p \<or> length (rebuilds p) \<le> i then p
      else
        let r = rebuilds p ! i in
        if r_phase r \<noteq> Writing then p
        else settle (scanAndSave (r_faults r) (r_tree r) (disk p)) i p)"

definition run :: "process \<Rightarrow> action list \<Rightarrow> process" where
  "run p acts = foldl step p acts"

text \<open>The scheduled job from its trigger to its end, with no other action in between.\<close>

definition cron_job :: "faults \<Rightarrow> entry list \<Rightarrow> process \<Rightarrow> process" where
  "cron_job flt es p =
     run p [Trigger flt es, FirstWrite (length (rebuilds p)), Finish (length (rebuilds p))]"

text \<open>A query to the process: answered while the process runs.\<close>

definition serve :: "query_env \<Rightarrow> process \<Rightarrow> url_values \<Rightarrow> response option" where
  "serve env p q = (if running p then Some (get_handler env (disk p) q) else None)"

text \<open>The tree of the example in the specification, as the calls of a walk of \<^verbatim>\<open>/data\<close>.\<close>

definition example_tree :: "entry list" where
  "example_tree =
     [\<lparr>e_path = ''/data'', e_err = False, e_is_dir = True, e_size = 4096,
       e_mod_time = ''2024-01-01T00:00:00Z''\<rparr>,
      \<lparr>e_path = ''/data/img'', e_err = False, e_is_dir = True, e_size = 4096,
       e_mod_time = ''2024-01-02T00:00:00Z''\<rparr>,
      \<lparr>e_path = ''/data/img/photo.png'', e_err = False, e_is_dir = False, e_size = 7,
       e_mod_time = ''2024-01-02T00:00:00Z''\<rparr>,
      \<lparr>e_path = ''/data/report.pdf'', e_err = False, e_is_dir = False, e_size = 120,
       e_mod_time = ''2024-01-01T00:00:00Z''\<rparr>]"

section \<open>Predicates and examples for the properties\<close>

text \<open>
  What holds of the variables of the second walk between any two statements: no file
  row of the transaction is without its directory row, neither now nor in any state
  the transaction has produced, and every id in the path cache is the id of a
  directory row.
\<close>

definition orphan_free :: "scan_state \<Rightarrow> bool" where
  "orphan_free s =
     (no_orphans (work (tx s)) \<and> list_all no_orphans (seen (tx s)) \<and>
      (\<forall>dir i. pathCache s dir = Some i \<longrightarrow> i \<in> set (map p_id (paths (work (tx s))))))"

text \<open>
  The cache agrees with the table, no file row is without its directory row, and no
  two directory rows share an id.
\<close>

definition consistent :: "scan_state \<Rightarrow> bool" where
  "consistent s =
     (cache_in_sync s \<and> no_orphans (work (tx s)) \<and> distinct (map p_id (paths (work (tx s)))))"

text \<open>
  A store with one file whose name is \<^verbatim>\<open>a\<close>, the three bytes of the UTF-8 form of
  \<^verbatim>\<open>U+4E2D\<close>, and \<^verbatim>\<open>b\<close>.
\<close>

definition zhong_db :: db where
  "zhong_db =
     \<lparr>paths = [\<lparr>p_id = 1, p_path = ''/data''\<rparr>],
      files = [\<lparr>f_id = 1, f_path_id = 1,
                f_filename = [CHR ''a'', CHR 0xE4, CHR 0xB8, CHR 0xAD, CHR ''b''], f_size = 1,
                f_create_time = ''2024-01-01T00:00:00Z''\<rparr>]\<rparr>"

text \<open>
  Of the statements a transaction has run, one that failed is the last one, and its
  error is what the code that ran it returned.
\<close>

definition clean_run :: "faults \<Rightarrow> error option \<Rightarrow> txn \<Rightarrow> bool" where
  "clean_run flt r t =
     (\<forall>k < stmts t. stmt_fails flt k \<longrightarrow> r = Some (ErrStmt k) \<and> Suc k = stmts t)"

text \<open>
  At most one call of \<^verbatim>\<open>scanAndSave\<close> holds the write lock, and every call in progress
  has opened the database and begun its transaction.
\<close>

definition lock_inv :: "process \<Rightarrow> bool" where
  "lock_inv p =
     (length (filter (\<lambda>r. r_phase r = Writing) (rebuilds p)) \<le> 1 \<and>
      list_all (\<lambda>r. \<not> open_fails (r_faults r) \<and> \<not> begin_fails (r_faults r)) (rebuilds p))"

text \<open>The faults in which exactly the statement with number \<open>n\<close> fails.\<close>

definition fail_at :: "nat \<Rightarrow> faults" where
  "fail_at n = \<lparr>open_fails = False, begin_fails = False, stmt_fails = (\<lambda>k. k = n), commit_fails = False\<rparr>"

text \<open>
  A start of the process with a valid configuration, the example tree under the
  configured directory, and \<^verbatim>\<open>sql.db\<close> as \<open>st\<close> says (holding the example index when
  it is there).
\<close>

definition example_env :: "stat_result \<Rightarrow> startup_env" where
  "example_env st =
     \<lparr>executable_ok = True, dotenv_ok = True, path_ok = True, time_env = ''23:00'',
      db_stat = st, disk0 = example_db, initDB_ok = True, tree = example_tree,
      scan_faults = no_faults, addfunc_ok = True\<rparr>"

section \<open>Properties of the query endpoint\<close>

subsection \<open>What the LIKE pattern of the handler matches\<close>

lemma like_char_iff: "like_char c c2 \<longleftrightarrow> sqlite3Tolower c = sqlite3Tolower c2"
  by (auto simp: like_char_def sqlite3Tolower_def split: if_splits)

lemma like_Nil_percent [simp]: "sqlite_like [37] s"
  by (induction s) auto

lemma like_percent:
  "sqlite_like (37 # ps) s \<longleftrightarrow> (\<exists>xs t. s = xs @ t \<and> sqlite_like ps t)"
proof (induction s)
  case Nil
  then show ?case by simp
next
  case (Cons c cs)
  show ?case
  proof
    assume "sqlite_like (37 # ps) (c # cs)"
    then consider "sqlite_like ps (c # cs)" | "sqlite_like (37 # ps) cs" by auto
    then show "\<exists>xs t. c # cs = xs @ t \<and> sqlite_like ps t"
    proof cases
      case 1
      then show ?thesis by (intro exI[of _ "[]"] exI[of _ "c # cs"]) simp
    next
      case 2
      then obtain xs t where "cs = xs @ t" "sqlite_like ps t" using Cons.IH by blast
      then show ?thesis by (intro exI[of _ "c # xs"] exI[of _ t]) simp
    qed
  next
    assume "\<exists>xs t. c # cs = xs @ t \<and> sqlite_like ps t"
    then obtain xs t where st: "c # cs = xs @ t" "sqlite_like ps t" by blast
    show "sqlite_like (37 # ps) (c # cs)"
    proof (cases xs)
      case Nil
      then have "sqlite_like ps (c # cs)" using st by simp
      then show ?thesis by simp
    next
      case (Cons x xs')
      then have "cs = xs' @ t" using st by simp
      then have "sqlite_like (37 # ps) cs" using Cons.IH st(2) by blast
      then show ?thesis by simp
    qed
  qed
qed

lemma like_literal_prefix:
  "37 \<notin> set k \<Longrightarrow> 95 \<notin> set k \<Longrightarrow>
   sqlite_like (k @ [37]) s \<longleftrightarrow>
     (\<exists>pre rest. s = pre @ rest \<and> map sqlite3Tolower pre = map sqlite3Tolower k)"
proof (induction k arbitrary: s)
  case Nil
  then show ?case by simp
next
  case (Cons a k)
  then have IH: "\<And>s. sqlite_like (k @ [37]) s \<longleftrightarrow>
      (\<exists>pre rest. s = pre @ rest \<and> map sqlite3Tolower pre = map sqlite3Tolower k)"
    by simp
  from Cons.prems have a: "a \<noteq> 37" "a \<noteq> 95" by auto
  show ?case
  proof (cases s)
    case Nil
    then show ?thesis using a by simp
  next
    case (Cons c cs)
    have "sqlite_like ((a # k) @ [37]) (c # cs) \<longleftrightarrow>
            sqlite3Tolower a = sqlite3Tolower c \<and> sqlite_like (k @ [37]) cs"
      using a by (simp add: like_char_iff)
    also have "\<dots> \<longleftrightarrow> sqlite3Tolower a = sqlite3Tolower c \<and>
        (\<exists>pre rest. cs = pre @ rest \<and> map sqlite3Tolower pre = map sqlite3Tolower k)"
      using IH by simp
    also have "\<dots> \<longleftrightarrow>
        (\<exists>pre rest. c # cs = pre @ rest \<and> map sqlite3Tolower pre = map sqlite3Tolower (a # k))"
    proof
      assume "sqlite3Tolower a = sqlite3Tolower c \<and>
        (\<exists>pre rest. cs = pre @ rest \<and> map sqlite3Tolower pre = map sqlite3Tolower k)"
      then obtain pre rest where "sqlite3Tolower a = sqlite3Tolower c" "cs = pre @ rest"
        "map sqlite3Tolower pre = map sqlite3Tolower k" by blast
      then show "\<exists>pre rest. c # cs = pre @ rest \<and>
          map sqlite3Tolower pre = map sqlite3Tolower (a # k)"
        by (intro exI[of _ "c # pre"] exI[of _ rest]) simp
    next
      assume "\<exists>pre rest. c # cs = pre @ rest \<and>
          map sqlite3Tolower pre = map sqlite3Tolower (a # k)"
      then obtain pre rest where h: "c # cs = pre @ rest"
        "map sqlite3Tolower pre = map sqlite3Tolower (a # k)" by blast
      then obtain x pre' where "pre = x # pre'" by (cases pre) auto
      then show "sqlite3Tolower a = sqlite3Tolower c \<and>
        (\<exists>pre rest. cs = pre @ rest \<and> map sqlite3Tolower pre = map sqlite3Tolower k)"
        using h by auto
    qed
    finally show ?thesis using Cons by simp
  qed
qed

lemma like_contains:
  assumes "37 \<notin> set k" "95 \<notin> set k"
  shows "sqlite_like (37 # k @ [37]) s \<longleftrightarrow>
           sublist (map sqlite3Tolower k) (map sqlite3Tolower s)"
proof -
  have "sqlite_like (37 # k @ [37]) s \<longleftrightarrow> (\<exists>xs t. s = xs @ t \<and> sqlite_like (k @ [37]) t)"
    using like_percent[of "k @ [37]" s] by simp
  also have "\<dots> \<longleftrightarrow>
      (\<exists>xs pre rest. s = xs @ pre @ rest \<and> map sqlite3Tolower pre = map sqlite3Tolower k)"
    using like_literal_prefix[OF assms] by metis
  also have "\<dots> \<longleftrightarrow> sublist (map sqlite3Tolower k) (map sqlite3Tolower s)"
  proof
    assume "\<exists>xs pre rest. s = xs @ pre @ rest \<and> map sqlite3Tolower pre = map sqlite3Tolower k"
    then obtain xs pre rest where "s = xs @ pre @ rest"
      "map sqlite3Tolower pre = map sqlite3Tolower k" by blast
    then have "map sqlite3Tolower s =
        map sqlite3Tolower xs @ map sqlite3Tolower k @ map sqlite3Tolower rest" by simp
    then show "sublist (map sqlite3Tolower k) (map sqlite3Tolower s)"
      unfolding sublist_def by blast
  next
    assume "sublist (map sqlite3Tolower k) (map sqlite3Tolower s)"
    then obtain a b where ab: "map sqlite3Tolower s = a @ map sqlite3Tolower k @ b"
      unfolding sublist_def by blast
    then obtain xs r1 where 1: "s = xs @ r1" "a = map sqlite3Tolower xs"
      "map sqlite3Tolower k @ b = map sqlite3Tolower r1"
      using map_eq_append_conv[of sqlite3Tolower s a "map sqlite3Tolower k @ b"] by blast
    then obtain pre rest where 2: "r1 = pre @ rest"
      "map sqlite3Tolower k = map sqlite3Tolower pre" "b = map sqlite3Tolower rest"
      using map_eq_append_conv[of sqlite3Tolower r1 "map sqlite3Tolower k" b] by metis
    show "\<exists>xs pre rest. s = xs @ pre @ rest \<and> map sqlite3Tolower pre = map sqlite3Tolower k"
      using 1(1) 2(1,2) by metis
  qed
  finally show ?thesis .
qed

text \<open>
  The pattern the handler builds around a term without a NUL byte reads as \<^verbatim>\<open>%\<close>, the
  characters of the term, \<^verbatim>\<open>%\<close>; and a character below \<^verbatim>\<open>0x80\<close> is read only where the
  text has that byte.
\<close>

lemma utf8_fix_ge: "0x80 \<le> utf8_fix c"
  by (simp add: utf8_fix_def)

lemma utf8_flush_ge: "x \<in> set (utf8_flush acc) \<Longrightarrow> 0x80 \<le> x"
  by (auto simp: utf8_flush_def utf8_fix_def split: option.splits)

lemma utf8_chars_ascii:
  "x \<in> set (utf8_chars_from acc bs) \<Longrightarrow> x < 0x80 \<Longrightarrow> x \<in> of_char ` set bs"
proof (induction bs arbitrary: acc)
  case Nil
  then show ?case using utf8_flush_ge[of x acc] by simp
next
  case (Cons b bs)
  have f: "x \<notin> set (utf8_flush acc)"
    using Cons.prems(2) utf8_flush_ge[of x acc] by auto
  show ?case
    using Cons.prems f Cons.IH
    by (auto simp: Let_def split: option.splits bool.splits if_splits)
qed

lemma utf8_chars_snoc_percent:
  "utf8_chars_from acc (bs @ ''%'') = utf8_chars_from acc bs @ [37]"
  by (induction bs arbitrary: acc) (auto simp: Let_def utf8_flush_def split: option.splits bool.splits)

lemma c_string_id: "CHR 0x00 \<notin> set s \<Longrightarrow> c_string s = s"
  by (auto simp: c_string_def)

lemma pattern_chars:
  assumes "CHR 0x00 \<notin> set T"
  shows "sqlite_chars (''%'' @ T @ ''%'') = 37 # sqlite_chars T @ [37]"
proof -
  have "c_string (''%'' @ T @ ''%'') = ''%'' @ T @ ''%''"
    using assms by (intro c_string_id) simp
  moreover have "utf8_chars_from None (''%'' @ T @ ''%'') = 37 # utf8_chars_from None (T @ ''%'')"
    by (simp add: utf8_flush_def)
  ultimately show ?thesis
    using assms by (simp add: sqlite_chars_def utf8_chars_snoc_percent c_string_id)
qed

lemma no_wildcard_chars:
  assumes "c \<notin> set T" and "of_char c < (0x80::nat)"
  shows "of_char c \<notin> set (sqlite_chars T)"
proof
  assume "of_char c \<in> set (sqlite_chars T)"
  then have "of_char c \<in> (of_char :: char \<Rightarrow> nat) ` set (c_string T)"
    using utf8_chars_ascii assms(2) unfolding sqlite_chars_def by blast
  then have "c \<in> set (c_string T)" by auto
  then show False using assms(1) set_takeWhileD unfolding c_string_def by metis
qed

lemma likeFunc_contains:
  assumes "CHR 0x00 \<notin> set T" and "CHR ''%'' \<notin> set T" and "CHR ''_'' \<notin> set T"
  shows "likeFunc (''%'' @ T @ ''%'') F \<longleftrightarrow> contains_nocase T F"
proof -
  have 1: "37 \<notin> set (sqlite_chars T)"
    using no_wildcard_chars[OF assms(2)] by simp
  have 2: "95 \<notin> set (sqlite_chars T)"
    using no_wildcard_chars[OF assms(3)] by simp
  show ?thesis
    unfolding likeFunc_def contains_nocase_def pattern_chars[OF assms(1)]
    by (rule like_contains[OF 1 2])
qed

subsection \<open>The result of a search\<close>

lemma set_select_files:
  "set (select_files d pat) =
     {\<lparr>Path = p_path p, FileName = f_filename f, Size = f_size f, CreateTime = f_create_time f\<rparr> | p f.
        f \<in> set (files d) \<and> p \<in> set (paths d) \<and> f_path_id f = p_id p \<and>
        likeFunc pat (f_filename f)}"
  by (auto simp: select_files_def)

lemma scan_rows_fault_free:
  assumes "fault_free env"
  shows "scan_rows env i rs acc =
     Some (if rs = [] then acc
           else Some ((case acc of None \<Rightarrow> [] | Some xs \<Rightarrow> xs) @
                      map (\<lambda>r. r\<lparr>CreateTime := time_text env (CreateTime r)\<rparr>) rs))"
  using assms
  by (induction rs arbitrary: i acc) (auto simp: append_slice_def fault_free_def split: option.splits)

lemma Get_request [simp]:
  "Get (request key ty) ''key'' = key" "Get (request key ty) ''type'' = ty"
  by (simp_all add: Get_def request_def)

lemma select_fails_short: "length T \<le> 49998 \<Longrightarrow> \<not> select_fails d (''%'' @ T @ ''%'')"
  by (simp add: select_fails_def like_too_complex_def)

lemma search_eq:
  assumes "fault_free env" and "T \<noteq> []" and "length T \<le> 49998"
  shows "search env d T =
           map (\<lambda>r. encode_FileInfo (r\<lparr>CreateTime := time_text env (CreateTime r)\<rparr>))
             (select_files d (''%'' @ T @ ''%''))"
  using assms(1,2) select_fails_short[OF assms(3), of d]
  by (simp add: search_def get_handler_def scan_rows_fault_free[OF assms(1)] Encode_def
      http_Error_def fault_free_def)

lemma image_rows: "h ` {g p f | p f. P p f} = {h (g p f) | p f. P p f}"
  by blast

text \<open>
  C1, as amended. For a query that meets no database fault and a search term \<open>T\<close> that
  is not empty, has at most 49998 bytes, and holds no NUL byte, no \<^verbatim>\<open>%\<close> and no \<^verbatim>\<open>_\<close>:
  the records in the result of the search are exactly the records of the file rows of
  the store, each joined with its directory row, whose filename contains \<open>T\<close>, where
  both are read as SQLite reads text (UTF-8 characters up to the first NUL byte) and
  ASCII letters are compared without regard to case. The directory path plays no part
  in the match.
\<close>

theorem search_matches_filename_nocase:
  assumes "fault_free env" and "T \<noteq> []" and "length T \<le> 49998"
    and "CHR 0x00 \<notin> set T" and "CHR ''%'' \<notin> set T" and "CHR ''_'' \<notin> set T"
  shows "set (search env d T) =
           {record_of env p f | p f.
              f \<in> set (files d) \<and> p \<in> set (paths d) \<and> f_path_id f = p_id p \<and>
              contains_nocase T (f_filename f)}"
proof -
  have "set (search env d T) =
          (\<lambda>r. encode_FileInfo (r\<lparr>CreateTime := time_text env (CreateTime r)\<rparr>)) `
            set (select_files d (''%'' @ T @ ''%''))"
    by (simp add: search_eq[OF assms(1,2,3)])
  also have "\<dots> =
      {encode_FileInfo (\<lparr>Path = p_path p, FileName = f_filename f, Size = f_size f,
          CreateTime = f_create_time f\<rparr>\<lparr>CreateTime := time_text env
            (CreateTime \<lparr>Path = p_path p, FileName = f_filename f, Size = f_size f,
               CreateTime = f_create_time f\<rparr>)\<rparr>) | p f.
         f \<in> set (files d) \<and> p \<in> set (paths d) \<and> f_path_id f = p_id p \<and>
         likeFunc (''%'' @ T @ ''%'') (f_filename f)}"
    unfolding set_select_files by (rule image_rows)
  also have "\<dots> = {record_of env p f | p f.
              f \<in> set (files d) \<and> p \<in> set (paths d) \<and> f_path_id f = p_id p \<and>
              likeFunc (''%'' @ T @ ''%'') (f_filename f)}"
    by (simp add: record_of_def)
  finally show ?thesis
    using likeFunc_contains[OF assms(4,5,6)] by simp
qed

lemma example_chars:
  "sqlite_chars ''report.pdf'' = [114, 101, 112, 111, 114, 116, 46, 112, 100, 102]"
  "sqlite_chars ''photo.png'' = [112, 104, 111, 116, 111, 46, 112, 110, 103]"
  "sqlite_chars ''Report'' = [82, 101, 112, 111, 114, 116]"
  "sqlite_chars ''REPORT'' = [82, 69, 80, 79, 82, 84]"
  "sqlite_chars ''data'' = [100, 97, 116, 97]"
  by (simp_all add: sqlite_chars_def c_string_def utf8_flush_def)

lemma example_contains:
  "contains_nocase ''Report'' ''report.pdf''" "\<not> contains_nocase ''Report'' ''photo.png''"
  "\<not> contains_nocase ''data'' ''report.pdf''" "\<not> contains_nocase ''data'' ''photo.png''"
  "contains_nocase ''REPORT'' ''report.pdf''"
  by (simp_all add: contains_nocase_def example_chars sqlite3Tolower_def sublist_Cons_right prefix_Cons)

lemma fault_free_none [simp]: "fault_free no_query_faults"
  by (simp add: fault_free_def no_query_faults_def)

text \<open>
  At the example index, the term \<^verbatim>\<open>Report\<close> finds \<^verbatim>\<open>report.pdf\<close>, and the term
  \<^verbatim>\<open>data\<close>, which occurs in the directory paths only, finds nothing.
\<close>

theorem search_matches_filename_nocase_witness:
  "record_of no_query_faults \<lparr>p_id = 2, p_path = ''/data''\<rparr>
     \<lparr>f_id = 2, f_path_id = 2, f_filename = ''report.pdf'', f_size = 120,
      f_create_time = ''2024-01-01T00:00:00Z''\<rparr>
     \<in> set (search no_query_faults example_db ''Report'') \<and>
   set (search no_query_faults example_db ''data'') = {}"
proof -
  let ?p = "\<lparr>p_id = 2, p_path = ''/data''\<rparr>"
  let ?f = "\<lparr>f_id = 2, f_path_id = 2, f_filename = ''report.pdf'', f_size = 120,
             f_create_time = ''2024-01-01T00:00:00Z''\<rparr>"
  have 1: "set (search no_query_faults example_db ''Report'') =
           {record_of no_query_faults p f | p f.
              f \<in> set (files example_db) \<and> p \<in> set (paths example_db) \<and> f_path_id f = p_id p \<and>
              contains_nocase ''Report'' (f_filename f)}"
    using search_matches_filename_nocase[of no_query_faults "''Report''" example_db] by simp
  have 2: "set (search no_query_faults example_db ''data'') =
           {record_of no_query_faults p f | p f.
              f \<in> set (files example_db) \<and> p \<in> set (paths example_db) \<and> f_path_id f = p_id p \<and>
              contains_nocase ''data'' (f_filename f)}"
    using search_matches_filename_nocase[of no_query_faults "''data''" example_db] by simp
  have "?f \<in> set (files example_db) \<and> ?p \<in> set (paths example_db) \<and> f_path_id ?f = p_id ?p \<and>
        contains_nocase ''Report'' (f_filename ?f)"
    by (simp add: example_db_def example_contains)
  then have a: "record_of no_query_faults ?p ?f \<in> set (search no_query_faults example_db ''Report'')"
    unfolding 1 by blast
  have b: "set (search no_query_faults example_db ''data'') = {}"
    unfolding 2 by (auto simp: example_db_def example_contains)
  show ?thesis using a b by simp
qed

text \<open>
  C1 as stated fails: \<^verbatim>\<open>REPORT\<close> is not a substring of \<^verbatim>\<open>report.pdf\<close>, and the record of
  \<^verbatim>\<open>report.pdf\<close> is in the result of the search for \<^verbatim>\<open>REPORT\<close>.
\<close>

theorem search_case_counterexample:
  "\<not> sublist ''REPORT'' ''report.pdf'' \<and>
   record_of no_query_faults \<lparr>p_id = 2, p_path = ''/data''\<rparr>
     \<lparr>f_id = 2, f_path_id = 2, f_filename = ''report.pdf'', f_size = 120,
      f_create_time = ''2024-01-01T00:00:00Z''\<rparr>
     \<in> set (search no_query_faults example_db ''REPORT'')"
proof -
  have "likeFunc ''%REPORT%'' ''report.pdf''"
    using likeFunc_contains[of "''REPORT''" "''report.pdf''"] example_contains(5) by simp
  moreover have "\<not> likeFunc ''%REPORT%'' ''photo.png''"
    using likeFunc_contains[of "''REPORT''" "''photo.png''"]
    by (simp add: contains_nocase_def example_chars sqlite3Tolower_def sublist_Cons_right prefix_Cons)
  moreover have "search no_query_faults example_db ''REPORT'' =
      map (\<lambda>r. encode_FileInfo (r\<lparr>CreateTime := time_text no_query_faults (CreateTime r)\<rparr>))
        (select_files example_db ''%REPORT%'')"
    using search_eq[of no_query_faults "''REPORT''" example_db] by simp
  ultimately show ?thesis
    by (simp add: select_files_def example_db_def record_of_def sublist_Cons_right prefix_Cons)
qed

text \<open>
  Inputs outside the amended statement. The empty term is a substring of every
  filename, and the handler answers it with 400 and no record. The term \<^verbatim>\<open>_\<close> is a
  wildcard of LIKE that the handler passes on as it is: it occurs in no filename of the
  example index and finds both files. A term that is one NUL byte ends the pattern
  after its first \<^verbatim>\<open>%\<close> and finds both files too. A term of 49999 bytes makes the
  pattern too long for LIKE, and the answer is 500.
\<close>

lemma search_empty_term: "search env d [] = []"
  by (simp add: search_def get_handler_def http_Error_def)

lemma search_underscore_finds_all:
  "length (search no_query_faults example_db ''_'') = 2 \<and> \<not> sublist ''_'' ''report.pdf'' \<and>
   \<not> sublist ''_'' ''photo.png''"
proof -
  have "search no_query_faults example_db ''_'' =
      map (\<lambda>r. encode_FileInfo (r\<lparr>CreateTime := time_text no_query_faults (CreateTime r)\<rparr>))
        (select_files example_db ''%_%'')"
    using search_eq[of no_query_faults "''_''" example_db] by simp
  moreover have "likeFunc ''%_%'' ''report.pdf''" "likeFunc ''%_%'' ''photo.png''"
    by (simp_all add: likeFunc_def example_chars sqlite_chars_def c_string_def utf8_flush_def)
  ultimately show ?thesis
    by (simp add: select_files_def example_db_def sublist_Cons_right prefix_Cons)
qed

lemma search_nul_term_finds_all:
  "length (search no_query_faults example_db [CHR 0x00]) = 2"
proof -
  have "search no_query_faults example_db [CHR 0x00] =
      map (\<lambda>r. encode_FileInfo (r\<lparr>CreateTime := time_text no_query_faults (CreateTime r)\<rparr>))
        (select_files example_db [CHR ''%'', CHR 0x00, CHR ''%''])"
    using search_eq[of no_query_faults "[CHR 0x00]" example_db] by simp
  moreover have "likeFunc [CHR ''%'', CHR 0x00, CHR ''%''] s" for s
    by (simp add: likeFunc_def sqlite_chars_def c_string_def utf8_flush_def)
  ultimately show ?thesis
    by (simp add: select_files_def example_db_def)
qed

lemma search_long_term:
  "get_handler no_query_faults example_db (request (replicate 49999 CHR ''a'') ''file'') =
     \<lparr>status = 500, body = ErrorText DatabaseError\<rparr>"
  by (simp add: get_handler_def no_query_faults_def select_fails_def like_too_complex_def
      example_db_def http_Error_def Let_def)

text \<open>
  The match is on characters, not on bytes: the byte \<^verbatim>\<open>0xE4\<close> alone is no character of
  the name that holds \<^verbatim>\<open>U+4E2D\<close>, whose three bytes are. In a record, a byte that starts
  no well-formed UTF-8 sequence is written as \<^verbatim>\<open>U+FFFD\<close>.
\<close>

lemma zhong_chars:
  "sqlite_chars [CHR ''a'', CHR 0xE4, CHR 0xB8, CHR 0xAD, CHR ''b''] = [97, 0x4E2D, 98]"
  "sqlite_chars [CHR ''%'', CHR 0xE4, CHR ''%''] = [37, 0xFFFD, 37]"
  "sqlite_chars [CHR ''%'', CHR 0xE4, CHR 0xB8, CHR 0xAD, CHR ''%''] = [37, 0x4E2D, 37]"
  by (simp_all add: sqlite_chars_def c_string_def utf8_flush_def utf8_fix_def sqlite3Utf8Trans1_def)

lemma search_reads_characters:
  "search no_query_faults zhong_db [CHR 0xE4] = [] \<and>
   length (search no_query_faults zhong_db [CHR 0xE4, CHR 0xB8, CHR 0xAD]) = 1"
proof -
  have 1: "search no_query_faults zhong_db [CHR 0xE4] =
      map (\<lambda>r. encode_FileInfo (r\<lparr>CreateTime := time_text no_query_faults (CreateTime r)\<rparr>))
        (select_files zhong_db [CHR ''%'', CHR 0xE4, CHR ''%''])"
    using search_eq[of no_query_faults "[CHR 0xE4]" zhong_db] by simp
  have 2: "search no_query_faults zhong_db [CHR 0xE4, CHR 0xB8, CHR 0xAD] =
      map (\<lambda>r. encode_FileInfo (r\<lparr>CreateTime := time_text no_query_faults (CreateTime r)\<rparr>))
        (select_files zhong_db [CHR ''%'', CHR 0xE4, CHR 0xB8, CHR 0xAD, CHR ''%''])"
    using search_eq[of no_query_faults "[CHR 0xE4, CHR 0xB8, CHR 0xAD]" zhong_db] by simp
  show ?thesis
    unfolding 1 2
    by (simp add: select_files_def zhong_db_def likeFunc_def zhong_chars like_char_def
        sqlite3Tolower_def)
qed

lemma json_string_invalid_byte:
  "json_string [CHR ''a'', CHR 0xE4, CHR ''b''] = [CHR ''a'', CHR 0xEF, CHR 0xBF, CHR 0xBD, CHR ''b'']"
  "json_string [CHR ''a'', CHR 0xE4, CHR 0xB8, CHR 0xAD, CHR ''b''] =
     [CHR ''a'', CHR 0xE4, CHR 0xB8, CHR 0xAD, CHR ''b'']"
  by (simp_all add: in_range_def)

subsection \<open>A search without a match\<close>

text \<open>
  C4. The specification promises an empty JSON array with status 200 for a term that
  matches no filename. The handler appends to a \<^verbatim>\<open>nil\<close> slice only when there is a row,
  so with no row it encodes the \<^verbatim>\<open>nil\<close> slice: the status is 200 and the body is
  \<^verbatim>\<open>null\<close>, for the request \<^verbatim>\<open>/get?key=xyz&type=file\<close> on the example index.
\<close>

theorem no_match_body_is_null:
  "get_handler no_query_faults example_db (request ''xyz'' ''file'') =
     \<lparr>status = 200, body = JsonBody JNull\<rparr>"
proof -
  have c: "sqlite_chars ''xyz'' = [120, 121, 122]"
    by (simp add: sqlite_chars_def c_string_def utf8_flush_def)
  have "\<not> likeFunc ''%xyz%'' ''report.pdf''" "\<not> likeFunc ''%xyz%'' ''photo.png''"
    using likeFunc_contains[of "''xyz''" "''report.pdf''"] likeFunc_contains[of "''xyz''" "''photo.png''"]
    by (simp_all add: contains_nocase_def example_chars c sqlite3Tolower_def sublist_Cons_right
        prefix_Cons)
  then show ?thesis
    by (simp add: get_handler_def no_query_faults_def select_files_def example_db_def Encode_def
        select_fails_def like_too_complex_def)
qed

text \<open>The same for every store and every term of at most 49998 bytes without a matching row.\<close>

lemma no_match_null_general:
  assumes "key \<noteq> []" and "length key \<le> 49998"
    and "select_files d (''%'' @ key @ ''%'') = []"
  shows "get_handler no_query_faults d (request key ''file'') = \<lparr>status = 200, body = JsonBody JNull\<rparr>"
  using assms select_fails_short[of key d]
  by (simp add: get_handler_def no_query_faults_def Encode_def)

lemma null_is_no_array: "JsonBody JNull \<noteq> JsonBody (JArray [])"
  by simp

subsection \<open>Bad requests\<close>

text \<open>
  C5. When \<^verbatim>\<open>sql.Open\<close> returns no error (it only looks up the driver the program
  registers by its import, and connects later), the status of the response is 400
  exactly when \<^verbatim>\<open>key\<close> is missing or empty, \<^verbatim>\<open>type\<close> is missing or empty, or \<^verbatim>\<open>type\<close>
  is not \<^verbatim>\<open>file\<close>.
\<close>

theorem bad_request_iff:
  assumes "\<not> open_err flt"
  shows "status (get_handler flt d q) = 400 \<longleftrightarrow>
           Get q ''key'' = [] \<or> Get q ''type'' = [] \<or> Get q ''type'' \<noteq> ''file''"
  using assms
  by (auto simp: get_handler_def http_Error_def Let_def split: option.splits)

text \<open>
  The two requests of the specification, \<^verbatim>\<open>/get?key=&type=file\<close> and
  \<^verbatim>\<open>/get?key=a&type=dir\<close>, get 400, and \<^verbatim>\<open>/get?key=a&type=file\<close> does not.
\<close>

theorem bad_request_iff_witness:
  "\<not> open_err no_query_faults \<and>
   status (get_handler no_query_faults example_db (request [] ''file'')) = 400 \<and>
   status (get_handler no_query_faults example_db (request ''a'' ''dir'')) = 400 \<and>
   status (get_handler no_query_faults example_db (request ''a'' ''file'')) \<noteq> 400"
  using bad_request_iff[of no_query_faults example_db "request [] ''file''"]
        bad_request_iff[of no_query_faults example_db "request ''a'' ''dir''"]
        bad_request_iff[of no_query_faults example_db "request ''a'' ''file''"]
  by (simp add: no_query_faults_def)

section \<open>Properties of the rebuild\<close>

subsection \<open>The walk\<close>

text \<open>
  The state a walk has reached after a prefix of its calls is the state of the walk
  over that prefix, so a property of the final state of every walk holds at every
  point of a walk.
\<close>

lemma Walk_append:
  "Walk fn (es1 @ es2) s =
     (case Walk fn es1 s of (Some err, s') \<Rightarrow> (Some err, s') | (None, s') \<Rightarrow> Walk fn es2 s')"
  by (induction es1 arbitrary: s) (auto split: prod.splits option.splits)

lemma Walk_invariant:
  assumes step: "\<And>e s err s'. I s \<Longrightarrow> fn e s = (err, s') \<Longrightarrow> I s'"
    and "I s" and "Walk fn es s = (err, s')"
  shows "I s'"
  using assms(2,3)
proof (induction es arbitrary: s)
  case Nil
  then show ?case by simp
next
  case (Cons e es)
  obtain r s1 where f: "fn e s = (r, s1)" by (cases "fn e s")
  have I1: "I s1" using step[OF Cons.prems(1) f] .
  show ?case
  proof (cases r)
    case None
    then show ?thesis using Cons.IH[OF I1] Cons.prems(2) f by simp
  next
    case (Some a)
    then show ?thesis using Cons.prems(2) f I1 by simp
  qed
qed

lemma Walk_countFn: "fst (Walk countFn es n) = None"
  by (induction es arbitrary: n) (auto simp: countFn_def)

subsection \<open>The example tree\<close>

lemmas ev = scanAndSave_def no_faults_def example_tree_def clear_tables_def tx_exec_def Begin_def
    countFn_def walkFn_def init_scan_def path_id_for_def insert_path_def insert_file_def Dir_def Base_def
   Clean_def ToSlash_def next_rowid_def Commit_def Rollback_def example_db_def empty_db_def Let_def

lemma example_rebuild: "store (scanAndSave no_faults example_tree empty_db) = example_db"
  by (simp add: ev)

lemma example_rebuild_rev:
  "store (scanAndSave no_faults (rev example_tree) example_db) =
     \<lparr>paths = [\<lparr>p_id = 1, p_path = ''/data''\<rparr>, \<lparr>p_id = 2, p_path = ''/data/img''\<rparr>],
      files = [\<lparr>f_id = 1, f_path_id = 1, f_filename = ''report.pdf'', f_size = 120,
                f_create_time = ''2024-01-01T00:00:00Z''\<rparr>,
               \<lparr>f_id = 2, f_path_id = 2, f_filename = ''photo.png'', f_size = 7,
                f_create_time = ''2024-01-02T00:00:00Z''\<rparr>]\<rparr>"
  by (simp add: ev)

text \<open>
  With a failure of statement 4 (the insert of the second directory) the rebuild of
  the example tree ends in \<^verbatim>\<open>log.Fatal\<close> after one file row was inserted.
\<close>

lemma example_abort:
  "scanAndSave (fail_at 4) example_tree example_db =
     \<lparr>outcome = Fatal (ErrStmt 4), store = example_db,
      history = [\<lparr>paths = [\<lparr>p_id = 1, p_path = ''/data/img''\<rparr>],
                  files = [\<lparr>f_id = 1, f_path_id = 1, f_filename = ''photo.png'', f_size = 7,
                            f_create_time = ''2024-01-02T00:00:00Z''\<rparr>]\<rparr>,
                 \<lparr>paths = [\<lparr>p_id = 1, p_path = ''/data/img''\<rparr>], files = []\<rparr>,
                 \<lparr>paths = [], files = []\<rparr>,
                 \<lparr>paths = paths example_db, files = []\<rparr>],
      issued = 5\<rparr>"
  by (simp add: ev fail_at_def)

subsection \<open>An aborted rebuild\<close>

lemma aborted_store:
  "outcome (scanAndSave flt es d) \<noteq> Done \<Longrightarrow> store (scanAndSave flt es d) = d"
  by (auto simp: scanAndSave_def Rollback_def split: prod.splits option.splits if_splits)

text \<open>
  C2. A rebuild that ends in an error, whichever database call fails and after however
  many file rows, leaves the store with exactly the records it had before the rebuild:
  the statements ran in a transaction that is rolled back, or never committed.
\<close>

theorem aborted_rebuild_keeps_generation:
  assumes "outcome (scanAndSave flt es d) = Fatal err"
  shows "store (scanAndSave flt es d) = d \<and>
         (no_orphans d \<longrightarrow> no_orphans (store (scanAndSave flt es d)))"
  using assms aborted_store[of flt es d] by simp

text \<open>
  In the example the rebuild fails after one file row was inserted, and the store
  holds the example index as before.
\<close>

theorem aborted_rebuild_keeps_generation_witness:
  "outcome (scanAndSave (fail_at 4) example_tree example_db) = Fatal (ErrStmt 4) \<and>
   length (files (hd (history (scanAndSave (fail_at 4) example_tree example_db)))) = 1 \<and>
   store (scanAndSave (fail_at 4) example_tree example_db) = example_db \<and>
   no_orphans (store (scanAndSave (fail_at 4) example_tree example_db))"
proof -
  have o: "no_orphans example_db" by (simp add: no_orphans_def example_db_def)
  show ?thesis
    using aborted_rebuild_keeps_generation[of "fail_at 4" example_tree example_db "ErrStmt 4"] o
    by (simp add: example_abort)
qed

subsection \<open>File rows and their directory rows\<close>

lemma next_rowid_fresh: "next_rowid ids \<notin> set ids"
proof (cases "ids = []")
  case True
  then show ?thesis by simp
next
  case False
  have "\<And>i. i \<in> set ids \<Longrightarrow> i \<le> Max (set ids)" by simp
  then have "Max (set ids) + 1 \<notin> set ids" by fastforce
  then show ?thesis using False by (simp add: next_rowid_def)
qed

lemma path_id_for_orphan_free:
  assumes "orphan_free s" and "path_id_for flt dir s = (r, s')"
  shows "orphan_free s' \<and> (\<forall>i. r = Inr i \<longrightarrow> i \<in> set (map p_id (paths (work (tx s')))))"
  using assms
  by (auto simp: path_id_for_def insert_path_def orphan_free_def no_orphans_def Let_def list_all_iff
      split: option.splits if_splits)

lemma insert_file_orphan_free:
  assumes "orphan_free s" and "i \<in> set (map p_id (paths (work (tx s))))"
    and "insert_file flt i fn sz mt (tx s) = (r, t)"
  shows "orphan_free (s\<lparr>tx := t\<rparr>)" and "orphan_free (s\<lparr>tx := t, scannedFiles := n\<rparr>)"
  using assms
  by (auto simp: insert_file_def tx_exec_def orphan_free_def no_orphans_def list_all_iff
      split: if_splits)

lemma walkFn_orphan_free:
  assumes "orphan_free s" and "walkFn flt e s = (r, s')"
  shows "orphan_free s'"
proof (cases "e_err e \<or> e_is_dir e")
  case True
  then show ?thesis using assms by (simp add: walkFn_def)
next
  case False
  obtain r1 s1 where p: "path_id_for flt (ToSlash (Dir (e_path e))) s = (r1, s1)"
    by (cases "path_id_for flt (ToSlash (Dir (e_path e))) s")
  note P = path_id_for_orphan_free[OF assms(1) p]
  show ?thesis
  proof (cases r1)
    case (Inl a)
    then show ?thesis using assms(2) False p P by (simp add: walkFn_def)
  next
    case (Inr i)
    obtain r2 t where f: "insert_file flt i (Base (e_path e)) (e_size e) (e_mod_time e) (tx s1) = (r2, t)"
      by (cases "insert_file flt i (Base (e_path e)) (e_size e) (e_mod_time e) (tx s1)")
    have i: "i \<in> set (map p_id (paths (work (tx s1))))" using P Inr by blast
    note F = insert_file_orphan_free[OF conjunct1[OF P] i f]
    show ?thesis using assms(2) False p Inr f F by (cases r2) (auto simp: walkFn_def)
  qed
qed

lemma clear_tables_orphan_free:
  assumes "clear_tables flt (Begin d) = (r, t)"
  shows "list_all no_orphans (seen t)" and "r = None \<Longrightarrow> orphan_free (init_scan t)"
  using assms
  by (auto simp: clear_tables_def tx_exec_def Begin_def no_orphans_def orphan_free_def init_scan_def
      split: if_splits)

text \<open>
  C6. In every state of the tables that a statement of a rebuild produces, from the
  first \<^verbatim>\<open>DELETE\<close> on, every file row has its directory row: the directory row is
  inserted, or found in the cache, before the file row that refers to it. The store
  a completed rebuild commits has the same property.
\<close>

theorem rebuild_never_orphans:
  "list_all no_orphans (history (scanAndSave flt es d)) \<and>
   (outcome (scanAndSave flt es d) = Done \<longrightarrow> no_orphans (store (scanAndSave flt es d)))"
proof -
  obtain r t where c: "clear_tables flt (Begin d) = (r, t)" by (cases "clear_tables flt (Begin d)")
  note C = clear_tables_orphan_free[OF c]
  obtain r' s where w: "Walk (walkFn flt) es (init_scan t) = (r', s)"
    by (cases "Walk (walkFn flt) es (init_scan t)")
  have W: "orphan_free s" if "r = None"
  proof (rule Walk_invariant[where I = orphan_free and fn = "walkFn flt", OF _ _ w])
    show "\<And>e s err s'. orphan_free s \<Longrightarrow> walkFn flt e s = (err, s') \<Longrightarrow> orphan_free s'"
      by (rule walkFn_orphan_free)
    show "orphan_free (init_scan t)" using C(2) that by simp
  qed
  obtain n where k: "Walk countFn es 0 = (None, n)"
    using Walk_countFn[of es 0] by (cases "Walk countFn es 0") auto
  show ?thesis
  proof (cases r)
    case None
    then have "orphan_free s" using W by simp
    then show ?thesis using c None w k
      by (cases r') (auto simp: scanAndSave_def orphan_free_def Commit_def)
  next
    case (Some a)
    then show ?thesis using c C(1) by (simp add: scanAndSave_def)
  qed
qed

text \<open>
  In the example: the states of the rebuild that fails at statement 4, and the store
  after the rebuild without a fault.
\<close>

theorem rebuild_never_orphans_witness:
  "list_all no_orphans (history (scanAndSave (fail_at 4) example_tree example_db)) \<and>
   length (history (scanAndSave (fail_at 4) example_tree example_db)) = 4 \<and>
   outcome (scanAndSave no_faults example_tree empty_db) = Done \<and>
   no_orphans (store (scanAndSave no_faults example_tree empty_db))"
proof -
  have 1: "list_all no_orphans (history (scanAndSave (fail_at 4) example_tree example_db))"
    using rebuild_never_orphans[of "fail_at 4" example_tree example_db] by (rule conjunct1)
  have 2: "outcome (scanAndSave no_faults example_tree empty_db) = Done"
    by (simp add: ev)
  have 3: "no_orphans (store (scanAndSave no_faults example_tree empty_db))"
    using rebuild_never_orphans[of no_faults example_tree empty_db] 2 by blast
  show ?thesis using 1 2 3 by (simp add: example_abort)
qed

text \<open>
  The states a transaction records are the states of its tables: the latest recorded
  state is the one a completed rebuild commits.
\<close>

lemma walkFn_seen:
  assumes "seen (tx s) \<noteq> [] \<and> hd (seen (tx s)) = work (tx s)" and "walkFn flt e s = (r, s')"
  shows "seen (tx s') \<noteq> [] \<and> hd (seen (tx s')) = work (tx s')"
  using assms
  by (auto simp: walkFn_def path_id_for_def insert_path_def insert_file_def tx_exec_def Let_def
      split: if_splits option.splits prod.splits sum.splits)

lemma clear_tables_seen:
  "clear_tables flt (Begin d) = (None, t) \<Longrightarrow> seen t \<noteq> [] \<and> hd (seen t) = work t"
  by (auto simp: clear_tables_def tx_exec_def Begin_def split: if_splits)

lemma committed_store_is_last_state:
  assumes "outcome (scanAndSave flt es d) = Done"
  shows "history (scanAndSave flt es d) \<noteq> [] \<and>
         store (scanAndSave flt es d) = hd (history (scanAndSave flt es d))"
proof -
  obtain r t where c: "clear_tables flt (Begin d) = (r, t)" by (cases "clear_tables flt (Begin d)")
  obtain r' s where w: "Walk (walkFn flt) es (init_scan t) = (r', s)"
    by (cases "Walk (walkFn flt) es (init_scan t)")
  obtain n where k: "Walk countFn es 0 = (None, n)"
    using Walk_countFn[of es 0] by (cases "Walk countFn es 0") auto
  have r: "r = None" using assms c by (cases r) (auto simp: scanAndSave_def split: if_splits)
  have "seen (tx s) \<noteq> [] \<and> hd (seen (tx s)) = work (tx s)"
  proof (rule Walk_invariant[where I = "\<lambda>s. seen (tx s) \<noteq> [] \<and> hd (seen (tx s)) = work (tx s)"
        and fn = "walkFn flt", OF _ _ w])
    show "\<And>e s err s'. seen (tx s) \<noteq> [] \<and> hd (seen (tx s)) = work (tx s) \<Longrightarrow>
            walkFn flt e s = (err, s') \<Longrightarrow> seen (tx s') \<noteq> [] \<and> hd (seen (tx s')) = work (tx s')"
      by (rule walkFn_seen)
    show "seen (tx (init_scan t)) \<noteq> [] \<and> hd (seen (tx (init_scan t))) = work (tx (init_scan t))"
      using clear_tables_seen[of flt d t] c r by (simp add: init_scan_def)
  qed
  then show ?thesis using assms c r w k
    by (cases r') (auto simp: scanAndSave_def Commit_def split: if_splits)
qed

subsection \<open>The path cache\<close>

lemma path_id_for_sync:
  assumes "cache_in_sync s" and "path_id_for flt dir s = (r, s')"
  shows "cache_in_sync s' \<and> r \<noteq> Inl ErrNoRows"
proof (cases "pathCache s dir")
  case (Some i)
  then show ?thesis using assms by (auto simp: path_id_for_def)
next
  case None
  let ?ps = "paths (work (tx s))"
  from assms(1) have dom: "dom (pathCache s) = set (map p_path ?ps)"
    and ids: "\<And>x. x \<in> set ?ps \<Longrightarrow> pathCache s (p_path x) = Some (p_id x)"
    by (simp_all add: cache_in_sync_def list_all_iff)
  have new: "dir \<notin> set (map p_path ?ps)" using None dom by blast
  show ?thesis
  proof (cases "stmt_fails flt (stmts (tx s))")
    case True
    then have "r = Inl (ErrStmt (stmts (tx s)))" "s' = s\<lparr>tx := (tx s)\<lparr>stmts := Suc (stmts (tx s))\<rparr>\<rparr>"
      using assms(2) None by (simp_all add: path_id_for_def insert_path_def)
    then show ?thesis using assms(1) by (simp add: cache_in_sync_def)
  next
    case False
    define i where "i = next_rowid (map p_id ?ps)"
    have r: "r = Inr i"
      and s': "pathCache s' = (pathCache s)(dir \<mapsto> i)"
              "paths (work (tx s')) = ?ps @ [\<lparr>p_id = i, p_path = dir\<rparr>]"
      using assms(2) None False new
      by (auto simp: path_id_for_def insert_path_def Let_def i_def)
    have "dom (pathCache s') = set (map p_path (paths (work (tx s'))))"
      using dom s' by simp
    moreover have "pathCache s' (p_path x) = Some (p_id x)" if "x \<in> set (paths (work (tx s')))" for x
    proof (cases "x \<in> set ?ps")
      case True
      then have "p_path x \<noteq> dir" using new by auto
      then show ?thesis using ids[OF True] s' by simp
    next
      case False
      then have "x = \<lparr>p_id = i, p_path = dir\<rparr>" using that s' by simp
      then show ?thesis using s' by simp
    qed
    ultimately show ?thesis using r by (simp add: cache_in_sync_def list_all_iff)
  qed
qed

lemma insert_file_paths:
  "insert_file flt i fn sz mt t = (r, t') \<Longrightarrow> paths (work t') = paths (work t) \<and> r \<noteq> Some ErrNoRows"
  by (auto simp: insert_file_def tx_exec_def split: if_splits)

lemma walkFn_sync:
  assumes "cache_in_sync s" and "walkFn flt e s = (r, s')"
  shows "cache_in_sync s' \<and> r \<noteq> Some ErrNoRows"
proof (cases "e_err e \<or> e_is_dir e")
  case True
  then show ?thesis using assms by (simp add: walkFn_def)
next
  case False
  obtain r1 s1 where p: "path_id_for flt (ToSlash (Dir (e_path e))) s = (r1, s1)"
    by (cases "path_id_for flt (ToSlash (Dir (e_path e))) s")
  note P = path_id_for_sync[OF assms(1) p]
  show ?thesis
  proof (cases r1)
    case (Inl a)
    then show ?thesis using assms(2) False p P by (auto simp: walkFn_def)
  next
    case (Inr i)
    obtain r2 t where f: "insert_file flt i (Base (e_path e)) (e_size e) (e_mod_time e) (tx s1) = (r2, t)"
      by (cases "insert_file flt i (Base (e_path e)) (e_size e) (e_mod_time e) (tx s1)")
    note F = insert_file_paths[OF f]
    have "cache_in_sync (s1\<lparr>tx := t\<rparr>)" "cache_in_sync (s1\<lparr>tx := t, scannedFiles := Suc (scannedFiles s1)\<rparr>)"
      using P F by (simp_all add: cache_in_sync_def)
    then show ?thesis using assms(2) False p Inr f F by (cases r2) (auto simp: walkFn_def)
  qed
qed

lemma Walk_sync:
  assumes "cache_in_sync s" and "Walk (walkFn flt) es s = (r, s')"
  shows "cache_in_sync s' \<and> r \<noteq> Some ErrNoRows"
  using assms
proof (induction es arbitrary: s)
  case Nil
  then show ?case by simp
next
  case (Cons e es)
  obtain r1 s1 where w: "walkFn flt e s = (r1, s1)" by (cases "walkFn flt e s")
  note S = walkFn_sync[OF Cons.prems(1) w]
  show ?case
  proof (cases r1)
    case None
    then show ?thesis using Cons.IH[of s1] S Cons.prems(2) w by simp
  next
    case (Some a)
    then show ?thesis using S Cons.prems(2) w by auto
  qed
qed

lemma clear_tables_sync:
  "clear_tables flt (Begin d) = (None, t) \<Longrightarrow> cache_in_sync (init_scan t)"
  by (auto simp: clear_tables_def tx_exec_def Begin_def cache_in_sync_def init_scan_def
      split: if_splits)

lemma clear_tables_error:
  "clear_tables flt t0 = (Some err, t) \<Longrightarrow> err \<noteq> ErrNoRows"
  by (auto simp: clear_tables_def tx_exec_def split: if_splits)

lemma cache_miss_is_new_row:
  "cache_in_sync s \<Longrightarrow> pathCache s dir = None \<Longrightarrow> dir \<notin> set (map p_path (paths (work (tx s))))"
  by (auto simp: cache_in_sync_def)

text \<open>
  C10. After the tables were cleared, at every point of the walk (after any number
  \<open>n\<close> of its calls, whatever statements fail) the keys of the path cache are exactly
  the paths of the table \<open>paths\<close> of the transaction and every row's path is mapped to
  the row's id; so a path that misses the cache is not in the table, its insert adds a
  row, and neither the walk nor \<^verbatim>\<open>scanAndSave\<close> ever ends with \<^verbatim>\<open>sql.ErrNoRows\<close>.
\<close>

theorem path_cache_in_sync:
  "(clear_tables flt (Begin d) = (None, t) \<longrightarrow>
      cache_in_sync (snd (Walk (walkFn flt) (take n es) (init_scan t))) \<and>
      fst (Walk (walkFn flt) (take n es) (init_scan t)) \<noteq> Some ErrNoRows) \<and>
   outcome (scanAndSave flt es d) \<noteq> Fatal ErrNoRows"
proof -
  have 1: "cache_in_sync (snd (Walk (walkFn flt) xs (init_scan t))) \<and>
      fst (Walk (walkFn flt) xs (init_scan t)) \<noteq> Some ErrNoRows"
    if "clear_tables flt (Begin d) = (None, t)" for t xs
    using Walk_sync[OF clear_tables_sync[OF that], of flt xs] by (cases "Walk (walkFn flt) xs (init_scan t)") simp
  obtain r t' where c: "clear_tables flt (Begin d) = (r, t')" by (cases "clear_tables flt (Begin d)")
  obtain n' where k: "Walk countFn es 0 = (None, n')"
    using Walk_countFn[of es 0] by (cases "Walk countFn es 0") auto
  have "outcome (scanAndSave flt es d) \<noteq> Fatal ErrNoRows"
  proof (cases r)
    case None
    obtain r' s where w: "Walk (walkFn flt) es (init_scan t') = (r', s)"
      by (cases "Walk (walkFn flt) es (init_scan t')")
    have "r' \<noteq> Some ErrNoRows" using 1[of t' es] c None w by simp
    then show ?thesis using c None k w by (cases r') (auto simp: scanAndSave_def)
  next
    case (Some a)
    then show ?thesis using c clear_tables_error[of flt "Begin d" a t'] by (auto simp: scanAndSave_def)
  qed
  then show ?thesis using 1 by blast
qed

text \<open>In the example, after three calls of the walk with a failure of statement 4.\<close>

theorem path_cache_in_sync_witness:
  "clear_tables (fail_at 4) (Begin example_db) =
     (None, \<lparr>work = \<lparr>paths = [], files = []\<rparr>, stmts = 2,
             seen = [\<lparr>paths = [], files = []\<rparr>, \<lparr>paths = paths example_db, files = []\<rparr>]\<rparr>) \<and>
   cache_in_sync (snd (Walk (walkFn (fail_at 4)) (take 3 example_tree)
     (init_scan \<lparr>work = \<lparr>paths = [], files = []\<rparr>, stmts = 2,
             seen = [\<lparr>paths = [], files = []\<rparr>, \<lparr>paths = paths example_db, files = []\<rparr>]\<rparr>))) \<and>
   outcome (scanAndSave (fail_at 4) example_tree example_db) \<noteq> Fatal ErrNoRows"
proof -
  let ?t = "\<lparr>work = \<lparr>paths = [], files = []\<rparr>, stmts = 2,
             seen = [\<lparr>paths = [], files = []\<rparr>, \<lparr>paths = paths example_db, files = []\<rparr>]\<rparr>"
  have c: "clear_tables (fail_at 4) (Begin example_db) = (None, ?t)"
    by (simp add: clear_tables_def tx_exec_def Begin_def fail_at_def numeral_2_eq_2)
  show ?thesis
    using path_cache_in_sync[of "fail_at 4" example_db ?t 3 example_tree] c by blast
qed

subsection \<open>The tuples of a rebuild\<close>

lemma tuples_alt:
  "tuples d = {(p_path p, f_filename f, f_size f, f_create_time f) | f p.
                 f \<in> set (files d) \<and> p \<in> set (paths d) \<and> f_path_id f = p_id p}"
  by (auto simp: tuples_def)

lemma rows_with_cached_id:
  assumes "consistent s" and "pathCache s dir = Some i"
  shows "{p \<in> set (paths (work (tx s))). p_id p = i} = {\<lparr>p_id = i, p_path = dir\<rparr>}"
proof -
  let ?ps = "paths (work (tx s))"
  from assms(1) have dom: "dom (pathCache s) = set (map p_path ?ps)"
    and ids: "\<And>x. x \<in> set ?ps \<Longrightarrow> pathCache s (p_path x) = Some (p_id x)"
    and inj: "inj_on p_id (set ?ps)"
    by (simp_all add: consistent_def cache_in_sync_def list_all_iff distinct_map)
  have "dir \<in> set (map p_path ?ps)" using assms(2) dom by blast
  then obtain x where x: "x \<in> set ?ps" "p_path x = dir" by auto
  then have "p_id x = i" using ids[OF x(1)] assms(2) by simp
  then have xe: "x = \<lparr>p_id = i, p_path = dir\<rparr>" using x(2) by (cases x) simp
  have "p = x" if "p \<in> set ?ps" "p_id p = i" for p
    using inj_onD[OF inj _ that(1) x(1)] that(2) \<open>p_id x = i\<close> by simp
  then have "{p \<in> set ?ps. p_id p = i} = {x}"
    using x(1) \<open>p_id x = i\<close> by blast
  then show ?thesis unfolding xe .
qed

lemma path_id_for_no_faults:
  assumes "consistent s"
  shows "\<exists>i s'. path_id_for no_faults dir s = (Inr i, s') \<and> consistent s' \<and>
           pathCache s' dir = Some i \<and> tuples (work (tx s')) = tuples (work (tx s))"
proof (cases "pathCache s dir")
  case (Some i)
  then show ?thesis using assms by (simp add: path_id_for_def)
next
  case None
  let ?ps = "paths (work (tx s))"
  define i where "i = next_rowid (map p_id ?ps)"
  define s' where "s' = snd (path_id_for no_faults dir s)"
  have new: "dir \<notin> set (map p_path ?ps)"
    using cache_miss_is_new_row[OF _ None] assms by (simp add: consistent_def)
  have r: "path_id_for no_faults dir s = (Inr i, s')"
    and c: "pathCache s' dir = Some i"
    and p: "paths (work (tx s')) = ?ps @ [\<lparr>p_id = i, p_path = dir\<rparr>]"
    and f: "files (work (tx s')) = files (work (tx s))"
    using None new
    by (auto simp: s'_def path_id_for_def insert_path_def Let_def i_def no_faults_def)
  have fresh: "i \<notin> set (map p_id ?ps)" unfolding i_def by (rule next_rowid_fresh)
  have sync: "cache_in_sync s'"
    using path_id_for_sync[OF _ r] assms by (simp add: consistent_def)
  have orph: "no_orphans (work (tx s'))"
    using assms p f by (auto simp: consistent_def no_orphans_def list_all_iff)
  have dist: "distinct (map p_id (paths (work (tx s'))))"
    using assms p fresh by (simp add: consistent_def)
  have refs: "\<And>x. x \<in> set (files (work (tx s))) \<Longrightarrow> f_path_id x \<noteq> i"
    using assms fresh by (auto simp: consistent_def no_orphans_def list_all_iff)
  have "tuples (work (tx s')) = tuples (work (tx s))"
    unfolding tuples_alt p f using refs by auto
  then show ?thesis using r c sync orph dist by (simp add: consistent_def)
qed

lemma insert_file_no_faults:
  "insert_file no_faults i fn sz mt t =
     (None, t\<lparr>work := (work t)\<lparr>files := files (work t) @
                 [\<lparr>f_id = next_rowid (map f_id (files (work t))), f_path_id = i,
                   f_filename = fn, f_size = sz, f_create_time = mt\<rparr>]\<rparr>,
              stmts := Suc (stmts t),
              seen := (work t)\<lparr>files := files (work t) @
                 [\<lparr>f_id = next_rowid (map f_id (files (work t))), f_path_id = i,
                   f_filename = fn, f_size = sz, f_create_time = mt\<rparr>]\<rparr> # seen t\<rparr>)"
  by (simp add: insert_file_def tx_exec_def no_faults_def)

lemma tuples_add_file:
  "tuples (d\<lparr>files := files d @ [row]\<rparr>) =
     tuples d \<union> (\<lambda>p. (p_path p, f_filename row, f_size row, f_create_time row)) `
                  {p \<in> set (paths d). p_id p = f_path_id row}"
  by (auto simp: tuples_def)

lemma walkFn_no_faults:
  assumes "consistent s"
  shows "\<exists>s'. walkFn no_faults e s = (None, s') \<and> consistent s' \<and>
           tuples (work (tx s')) = tuples (work (tx s)) \<union> (if is_file e then {tuple_of e} else {})"
proof (cases "is_file e")
  case False
  then show ?thesis using assms by (auto simp: walkFn_def is_file_def)
next
  case True
  let ?dir = "ToSlash (Dir (e_path e))"
  from path_id_for_no_faults[OF assms, of ?dir]
  obtain i s1 where p: "path_id_for no_faults ?dir s = (Inr i, s1)" and c1: "consistent s1"
    and ci: "pathCache s1 ?dir = Some i" and t1: "tuples (work (tx s1)) = tuples (work (tx s))"
    by (elim exE conjE)
  define row where "row = \<lparr>f_id = next_rowid (map f_id (files (work (tx s1)))), f_path_id = i,
                   f_filename = Base (e_path e), f_size = e_size e, f_create_time = e_mod_time e\<rparr>"
  define d' where "d' = (work (tx s1))\<lparr>files := files (work (tx s1)) @ [row]\<rparr>"
  define s' where "s' = s1\<lparr>tx := (tx s1)\<lparr>work := d', stmts := Suc (stmts (tx s1)), seen := d' # seen (tx s1)\<rparr>,
                           scannedFiles := Suc (scannedFiles s1)\<rparr>"
  have "walkFn no_faults e s =
          (case insert_file no_faults i (Base (e_path e)) (e_size e) (e_mod_time e) (tx s1) of
             (Some err, t) \<Rightarrow> (Some err, s1\<lparr>tx := t\<rparr>)
           | (None, t) \<Rightarrow> (None, s1\<lparr>tx := t, scannedFiles := Suc (scannedFiles s1)\<rparr>))"
    using True by (simp add: walkFn_def is_file_def Let_def p)
  also have "\<dots> = (None, s')"
    unfolding insert_file_no_faults s'_def d'_def row_def by simp
  finally have w: "walkFn no_faults e s = (None, s')" .
  have rows: "{p \<in> set (paths (work (tx s1))). p_id p = i} = {\<lparr>p_id = i, p_path = ?dir\<rparr>}"
    by (rule rows_with_cached_id[OF c1 ci])
  have "\<lparr>p_id = i, p_path = ?dir\<rparr> \<in> {p \<in> set (paths (work (tx s1))). p_id p = i}"
    unfolding rows by simp
  then have "\<lparr>p_id = i, p_path = ?dir\<rparr> \<in> set (paths (work (tx s1)))" by simp
  then have "p_id \<lparr>p_id = i, p_path = ?dir\<rparr> \<in> p_id ` set (paths (work (tx s1)))" by (rule imageI)
  then have iin: "i \<in> set (map p_id (paths (work (tx s1))))" by simp
  have cons: "consistent s'"
    using c1 iin by (simp add: consistent_def s'_def d'_def row_def cache_in_sync_def no_orphans_def)
  have "tuples d' = tuples (work (tx s1)) \<union>
          (\<lambda>p. (p_path p, Base (e_path e), e_size e, e_mod_time e)) `
            {p \<in> set (paths (work (tx s1))). p_id p = i}"
    unfolding d'_def row_def by (simp add: tuples_add_file)
  also have "\<dots> = tuples (work (tx s1)) \<union> {tuple_of e}" unfolding rows by (simp add: tuple_of_def)
  finally have "tuples (work (tx s')) = tuples (work (tx s)) \<union> {tuple_of e}"
    using t1 by (simp add: s'_def)
  then show ?thesis using w cons True by simp
qed

lemma Walk_no_faults:
  assumes "consistent s"
  shows "\<exists>s'. Walk (walkFn no_faults) es s = (None, s') \<and> consistent s' \<and>
           tuples (work (tx s')) = tuples (work (tx s)) \<union> tuple_of ` {e \<in> set es. is_file e}"
  using assms
proof (induction es arbitrary: s)
  case Nil
  then show ?case by simp
next
  case (Cons e es)
  from walkFn_no_faults[OF Cons.prems, of e]
  obtain s1 where 1: "walkFn no_faults e s = (None, s1)" "consistent s1"
    "tuples (work (tx s1)) = tuples (work (tx s)) \<union> (if is_file e then {tuple_of e} else {})"
    by (elim exE conjE)
  from Cons.IH[OF 1(2)]
  obtain s' where 2: "Walk (walkFn no_faults) es s1 = (None, s')" "consistent s'"
    "tuples (work (tx s')) = tuples (work (tx s1)) \<union> tuple_of ` {e \<in> set es. is_file e}"
    by (elim exE conjE)
  have "Walk (walkFn no_faults) (e # es) s = (None, s')" using 1(1) 2(1) by simp
  moreover have "tuples (work (tx s')) = tuples (work (tx s)) \<union> tuple_of ` {x \<in> set (e # es). is_file x}"
    using 1(3) 2(3) by auto
  ultimately show ?case using 2(2) by simp
qed

lemma rebuild_tuples:
  "outcome (scanAndSave no_faults es d) = Done \<and>
   tuples (store (scanAndSave no_faults es d)) = tuple_of ` {e \<in> set es. is_file e}"
proof -
  define t where "t = \<lparr>work = \<lparr>paths = [], files = []\<rparr>, stmts = 2, seen = [\<lparr>paths = [], files = []\<rparr>, d\<lparr>files := []\<rparr>]\<rparr>"
  have c: "clear_tables no_faults (Begin d) = (None, t)"
    by (simp add: clear_tables_def tx_exec_def Begin_def no_faults_def t_def numeral_2_eq_2)
  have "consistent (init_scan t)"
    by (simp add: consistent_def cache_in_sync_def no_orphans_def init_scan_def t_def)
  from Walk_no_faults[OF this, of es]
  obtain s' where w: "Walk (walkFn no_faults) es (init_scan t) = (None, s')"
    "tuples (work (tx s')) = tuples (work (tx (init_scan t))) \<union> tuple_of ` {e \<in> set es. is_file e}"
    by (elim exE conjE)
  have e: "tuples (work (tx (init_scan t))) = {}" by (simp add: tuples_def init_scan_def t_def)
  obtain n where k: "Walk countFn es 0 = (None, n)"
    using Walk_countFn[of es 0] by (cases "Walk countFn es 0") auto
  have "scanAndSave no_faults es d =
          \<lparr>outcome = Done, store = work (tx s'), history = seen (tx s'), issued = stmts (tx s')\<rparr>"
    using c k w(1) by (simp add: scanAndSave_def Commit_def no_faults_def)
  then show ?thesis using w(2) e by simp
qed

text \<open>
  C7. Two rebuilds without a fault over the same calls of the walk in any two orders,
  from any two earlier contents of the store, both complete and leave the same set of
  (path, filename, size, timestamp) tuples in the store.
\<close>

theorem rebuild_order_independent:
  assumes "mset es' = mset es"
  shows "outcome (scanAndSave no_faults es d) = Done \<and> outcome (scanAndSave no_faults es' d') = Done \<and>
         tuples (store (scanAndSave no_faults es' d')) = tuples (store (scanAndSave no_faults es d))"
proof -
  have "set es' = set es" using assms by (rule mset_eq_setD)
  then show ?thesis using rebuild_tuples[of es d] rebuild_tuples[of es' d'] by simp
qed

text \<open>
  In the example: a first rebuild into the empty store, and a second rebuild over the
  stored index that visits the tree in the opposite order. The ids differ, the tuples
  do not.
\<close>

theorem rebuild_order_independent_witness:
  "mset (rev example_tree) = mset example_tree \<and>
   tuples (store (scanAndSave no_faults (rev example_tree) example_db)) =
   tuples (store (scanAndSave no_faults example_tree empty_db))"
  using rebuild_order_independent[of "rev example_tree" example_tree empty_db example_db]
  by simp

section \<open>Properties of the process\<close>

subsection \<open>A statement that fails\<close>

text \<open>
  A statement of a rebuild that fails ends the rebuild in \<^verbatim>\<open>log.Fatal\<close> with the error
  of that statement: no code that runs a statement goes on after its failure.
\<close>

lemma tx_exec_clean:
  assumes "clean_run flt None t" and "tx_exec flt upd t = (r, t')"
  shows "clean_run flt r t'"
  using assms by (auto simp: clean_run_def tx_exec_def less_Suc_eq split: if_splits)

lemma clear_tables_clean:
  assumes "clear_tables flt (Begin d) = (r, t)"
  shows "clean_run flt r t"
proof -
  have b: "clean_run flt None (Begin d)" by (simp add: clean_run_def Begin_def)
  obtain r1 t1 where 1: "tx_exec flt (\<lambda>d. d\<lparr>files := []\<rparr>) (Begin d) = (r1, t1)"
    by (cases "tx_exec flt (\<lambda>d. d\<lparr>files := []\<rparr>) (Begin d)")
  note c1 = tx_exec_clean[OF b 1]
  show ?thesis
  proof (cases r1)
    case None
    then have "tx_exec flt (\<lambda>d. d\<lparr>paths := []\<rparr>) t1 = (r, t)"
      using assms 1 by (simp add: clear_tables_def)
    then show ?thesis using tx_exec_clean c1 None by blast
  next
    case (Some a)
    then show ?thesis using assms 1 c1 by (simp add: clear_tables_def)
  qed
qed

lemma path_id_for_clean:
  assumes "clean_run flt None (tx s)" and "path_id_for flt dir s = (r, s')"
  shows "clean_run flt (case r of Inl e \<Rightarrow> Some e | Inr i \<Rightarrow> None) (tx s')"
  using assms
  by (auto simp: clean_run_def path_id_for_def insert_path_def Let_def less_Suc_eq
      split: option.splits if_splits)

lemma walkFn_clean:
  assumes "clean_run flt None (tx s)" and "walkFn flt e s = (r, s')"
  shows "clean_run flt r (tx s')"
proof (cases "e_err e \<or> e_is_dir e")
  case True
  then show ?thesis using assms by (simp add: walkFn_def)
next
  case False
  obtain r1 s1 where p: "path_id_for flt (ToSlash (Dir (e_path e))) s = (r1, s1)"
    by (cases "path_id_for flt (ToSlash (Dir (e_path e))) s")
  note P = path_id_for_clean[OF assms(1) p]
  show ?thesis
  proof (cases r1)
    case (Inl a)
    then show ?thesis using assms(2) False p P by (simp add: walkFn_def)
  next
    case (Inr i)
    obtain r2 t where f: "insert_file flt i (Base (e_path e)) (e_size e) (e_mod_time e) (tx s1) = (r2, t)"
      by (cases "insert_file flt i (Base (e_path e)) (e_size e) (e_mod_time e) (tx s1)")
    have "clean_run flt r2 t"
      using tx_exec_clean[of flt "tx s1"] P Inr f by (simp add: insert_file_def)
    then show ?thesis using assms(2) False p Inr f by (cases r2) (auto simp: walkFn_def)
  qed
qed

lemma Walk_clean:
  assumes "clean_run flt None (tx s)" and "Walk (walkFn flt) es s = (r, s')"
  shows "clean_run flt r (tx s')"
  using assms
proof (induction es arbitrary: s)
  case Nil
  then show ?case by simp
next
  case (Cons e es)
  obtain r1 s1 where w: "walkFn flt e s = (r1, s1)" by (cases "walkFn flt e s")
  note C = walkFn_clean[OF Cons.prems(1) w]
  show ?case
  proof (cases r1)
    case None
    then show ?thesis using Cons.IH[of s1] C Cons.prems(2) w by simp
  next
    case (Some a)
    then show ?thesis using C Cons.prems(2) w by simp
  qed
qed

lemma failed_statement_is_fatal:
  assumes "stmt_fails flt k" and "k < issued (scanAndSave flt es d)"
  shows "outcome (scanAndSave flt es d) = Fatal (ErrStmt k)"
proof -
  have ob: "\<not> open_fails flt" "\<not> begin_fails flt"
    using assms(2) by (auto simp: scanAndSave_def split: if_splits)
  obtain r t where c: "clear_tables flt (Begin d) = (r, t)" by (cases "clear_tables flt (Begin d)")
  note C = clear_tables_clean[OF c]
  obtain n where cnt: "Walk countFn es 0 = (None, n)"
    using Walk_countFn[of es 0] by (cases "Walk countFn es 0") auto
  show ?thesis
  proof (cases r)
    case (Some a)
    then have "issued (scanAndSave flt es d) = stmts t" "outcome (scanAndSave flt es d) = Fatal a"
      using ob c by (simp_all add: scanAndSave_def)
    then show ?thesis using C Some assms by (auto simp: clean_run_def)
  next
    case None
    obtain r' s where w: "Walk (walkFn flt) es (init_scan t) = (r', s)"
      by (cases "Walk (walkFn flt) es (init_scan t)")
    have "clean_run flt None (tx (init_scan t))" using C None by (simp add: init_scan_def)
    note W = Walk_clean[OF this w]
    have i: "issued (scanAndSave flt es d) = stmts (tx s)"
      using ob c None cnt w by (cases r') (simp_all add: scanAndSave_def)
    show ?thesis
    proof (cases r')
      case None
      then show ?thesis using W i assms by (auto simp: clean_run_def)
    next
      case (Some a)
      then have "outcome (scanAndSave flt es d) = Fatal a"
        using ob c \<open>r = None\<close> cnt w by (simp add: scanAndSave_def)
      then show ?thesis using W i assms Some by (auto simp: clean_run_def)
    qed
  qed
qed

lemma first_statement_fails:
  assumes "\<not> open_fails flt" and "\<not> begin_fails flt" and "stmt_fails flt 0"
  shows "outcome (scanAndSave flt es d) = Fatal (ErrStmt 0)"
  using assms by (simp add: scanAndSave_def clear_tables_def tx_exec_def Begin_def)

text \<open>
  When the rebuild runs: a rebuild runs the two \<^verbatim>\<open>DELETE\<close> statements and at least one
  insert for every file of the crawl, and stops only at a statement that fails. So a
  statement before which none fails, among the first \<open>2 + N\<close> for a crawl with \<open>N\<close>
  files, is run.
\<close>

lemma tx_exec_fails_last:
  assumes "tx_exec flt upd t = (r, t')"
  shows "stmts t' = Suc (stmts t) \<and> (\<forall>err. r = Some err \<longrightarrow> stmt_fails flt (stmts t))"
  using assms by (auto simp: tx_exec_def split: if_splits)

lemma path_id_for_fails_last:
  assumes "cache_in_sync s" and "path_id_for flt dir s = (r, s')"
  shows "stmts (tx s) \<le> stmts (tx s') \<and>
         (\<forall>err. r = Inl err \<longrightarrow> 0 < stmts (tx s') \<and> stmt_fails flt (stmts (tx s') - 1))"
proof (cases "pathCache s dir")
  case (Some i)
  then show ?thesis using assms(2) by (auto simp: path_id_for_def)
next
  case None
  have "dir \<notin> set (map p_path (paths (work (tx s))))"
    using cache_miss_is_new_row[OF assms(1) None] .
  then show ?thesis using assms(2) None
    by (auto simp: path_id_for_def insert_path_def Let_def split: if_splits)
qed

lemma walkFn_fails_last:
  assumes "cache_in_sync s" and "walkFn flt e s = (r, s')"
  shows "(r = None \<longrightarrow> stmts (tx s) + (if is_file e then 1 else 0) \<le> stmts (tx s')) \<and>
         (\<forall>err. r = Some err \<longrightarrow> 0 < stmts (tx s') \<and> stmt_fails flt (stmts (tx s') - 1))"
proof (cases "is_file e")
  case False
  then show ?thesis using assms(2) by (auto simp: walkFn_def is_file_def)
next
  case True
  obtain r1 s1 where p: "path_id_for flt (ToSlash (Dir (e_path e))) s = (r1, s1)"
    by (cases "path_id_for flt (ToSlash (Dir (e_path e))) s")
  note P = path_id_for_fails_last[OF assms(1) p]
  show ?thesis
  proof (cases r1)
    case (Inl a)
    then show ?thesis using assms(2) True p P by (auto simp: walkFn_def is_file_def)
  next
    case (Inr i)
    obtain r2 t where f: "insert_file flt i (Base (e_path e)) (e_size e) (e_mod_time e) (tx s1) = (r2, t)"
      by (cases "insert_file flt i (Base (e_path e)) (e_size e) (e_mod_time e) (tx s1)")
    have F: "stmts t = Suc (stmts (tx s1)) \<and> (\<forall>err. r2 = Some err \<longrightarrow> stmt_fails flt (stmts (tx s1)))"
      using tx_exec_fails_last[of flt _ "tx s1" r2 t] f by (simp add: insert_file_def)
    show ?thesis using assms(2) True p Inr f F P
      by (cases r2) (auto simp: walkFn_def is_file_def)
  qed
qed

lemma Walk_fails_last:
  assumes "cache_in_sync s" and "Walk (walkFn flt) es s = (r, s')"
  shows "(r = None \<longrightarrow> stmts (tx s) + length (filter is_file es) \<le> stmts (tx s')) \<and>
         (\<forall>err. r = Some err \<longrightarrow> 0 < stmts (tx s') \<and> stmt_fails flt (stmts (tx s') - 1))"
  using assms
proof (induction es arbitrary: s)
  case Nil
  then show ?case by simp
next
  case (Cons e es)
  obtain r1 s1 where w: "walkFn flt e s = (r1, s1)" by (cases "walkFn flt e s")
  note S = walkFn_sync[OF Cons.prems(1) w]
  note L = walkFn_fails_last[OF Cons.prems(1) w]
  show ?case
  proof (cases r1)
    case None
    then have "Walk (walkFn flt) es s1 = (r, s')" using Cons.prems(2) w by simp
    then show ?thesis using Cons.IH[of s1] S L None by auto
  next
    case (Some a)
    then show ?thesis using L Cons.prems(2) w by auto
  qed
qed

lemma clear_tables_fails_last:
  assumes "clear_tables flt (Begin d) = (r, t)"
  shows "(r = None \<longrightarrow> stmts t = 2) \<and>
         (\<forall>err. r = Some err \<longrightarrow> 0 < stmts t \<and> stmt_fails flt (stmts t - 1))"
  using assms
  by (auto simp: clear_tables_def tx_exec_def Begin_def numeral_2_eq_2 split: if_splits)

lemma early_failure_is_reached:
  assumes "\<not> open_fails flt" and "\<not> begin_fails flt"
    and "\<forall>j<k. \<not> stmt_fails flt j" and "k < 2 + length (filter is_file es)"
  shows "k < issued (scanAndSave flt es d)"
proof -
  have last: "k < n" if "0 < n" "stmt_fails flt (n - 1)" for n
  proof (rule ccontr)
    assume "\<not> k < n"
    then have "n - 1 < k" using that(1) by simp
    then show False using assms(3) that(2) by blast
  qed
  obtain r t where c: "clear_tables flt (Begin d) = (r, t)" by (cases "clear_tables flt (Begin d)")
  note C = clear_tables_fails_last[OF c]
  obtain n where cnt: "Walk countFn es 0 = (None, n)"
    using Walk_countFn[of es 0] by (cases "Walk countFn es 0") auto
  show ?thesis
  proof (cases r)
    case (Some a)
    then have "issued (scanAndSave flt es d) = stmts t"
      using assms(1,2) c by (simp add: scanAndSave_def)
    then show ?thesis using C Some last by simp
  next
    case None
    obtain r' s where w: "Walk (walkFn flt) es (init_scan t) = (r', s)"
      by (cases "Walk (walkFn flt) es (init_scan t)")
    have sync: "cache_in_sync (init_scan t)" using clear_tables_sync c None by blast
    note W = Walk_fails_last[OF sync w]
    have i: "issued (scanAndSave flt es d) = stmts (tx s)"
      using assms(1,2) c None cnt w by (cases r') (simp_all add: scanAndSave_def)
    show ?thesis
    proof (cases r')
      case None
      then have "2 + length (filter is_file es) \<le> stmts (tx s)"
        using W C \<open>r = None\<close> by (simp add: init_scan_def)
      then show ?thesis using i assms(4) by simp
    next
      case (Some a)
      then show ?thesis using W i last by simp
    qed
  qed
qed

subsection \<open>A rebuild that fails\<close>

lemma settle_fatal:
  "outcome r = Fatal err \<Longrightarrow>
   settle r i p = p\<lparr>disk := store r, running := False, logged := logged p @ [err], rebuilds := []\<rparr>"
  by (simp add: settle_def exit_process_def)

lemma cron_job_alone:
  assumes "running p" and "\<not> lock_held p"
  shows "cron_job flt es p = settle (scanAndSave flt es (disk p)) (length (rebuilds p)) p"
proof (cases "open_fails flt \<or> begin_fails flt")
  case True
  then have "\<exists>err. outcome (scanAndSave flt es (disk p)) = Fatal err"
    by (cases "open_fails flt") (simp_all add: scanAndSave_def)
  then obtain err where o: "outcome (scanAndSave flt es (disk p)) = Fatal err" by (elim exE)
  show ?thesis using assms True o by (simp add: cron_job_def run_def settle_fatal)
next
  case False
  let ?n = "length (rebuilds p)"
  let ?p1 = "p\<lparr>rebuilds := rebuilds p @ [\<lparr>r_phase = Opened, r_faults = flt, r_tree = es\<rparr>]\<rparr>"
  have 1: "step p (Trigger flt es) = ?p1" using assms False by simp
  have l: "\<not> lock_held ?p1" using assms(2) by (simp add: lock_held_def)
  show ?thesis
  proof (cases "stmt_fails flt 0")
    case True
    have o: "outcome (scanAndSave flt es (disk p)) = Fatal (ErrStmt 0)"
      using first_statement_fails False True by blast
    have "step ?p1 (FirstWrite ?n) = settle (scanAndSave flt es (disk p)) ?n ?p1"
      using assms(1) l True by (simp add: Let_def)
    then show ?thesis using 1 o by (simp add: cron_job_def run_def settle_fatal)
  next
    case no: False
    let ?p2 = "p\<lparr>rebuilds := rebuilds p @ [\<lparr>r_phase = Writing, r_faults = flt, r_tree = es\<rparr>]\<rparr>"
    have 2: "step ?p1 (FirstWrite ?n) = ?p2"
      using assms(1) l no by (simp add: Let_def)
    have 3: "step ?p2 (Finish ?n) = settle (scanAndSave flt es (disk p)) ?n ?p2"
      using assms(1) by (simp add: Let_def)
    have "settle (scanAndSave flt es (disk p)) ?n ?p2 = settle (scanAndSave flt es (disk p)) ?n p"
      by (cases "outcome (scanAndSave flt es (disk p))") (simp_all add: settle_def exit_process_def)
    then show ?thesis using 1 2 3 by (simp add: cron_job_def run_def)
  qed
qed

text \<open>
  C3, as amended. When a statement that a scheduled rebuild runs fails, and no other
  rebuild holds the write lock, the rebuild ends in \<^verbatim>\<open>log.Fatal\<close> with the error of that
  statement: the transaction is rolled back, so the store keeps the generation it had,
  the error is logged, and the process ends: it is not running afterwards and answers
  no query.
\<close>

theorem failed_rebuild_ends_process:
  assumes "running p" and "\<not> lock_held p"
    and "stmt_fails flt k" and "k < issued (scanAndSave flt es (disk p))"
  shows "outcome (scanAndSave flt es (disk p)) = Fatal (ErrStmt k) \<and>
         \<not> running (cron_job flt es p) \<and>
         disk (cron_job flt es p) = disk p \<and>
         logged (cron_job flt es p) = logged p @ [ErrStmt k] \<and>
         serve env (cron_job flt es p) q = None"
proof -
  have o: "outcome (scanAndSave flt es (disk p)) = Fatal (ErrStmt k)"
    using failed_statement_is_fatal[OF assms(3,4)] .
  have s: "store (scanAndSave flt es (disk p)) = disk p"
    using aborted_store[of flt es "disk p"] o by simp
  show ?thesis
    using o s by (simp add: cron_job_alone[OF assms(1,2)] settle_fatal serve_def)
qed

text \<open>
  In the example the insert of the second directory (statement 4) fails in a rebuild
  over the example index.
\<close>

theorem failed_rebuild_ends_process_witness:
  "running (start example_db) \<and> \<not> lock_held (start example_db) \<and> stmt_fails (fail_at 4) 4 \<and>
   4 < issued (scanAndSave (fail_at 4) example_tree (disk (start example_db))) \<and>
   \<not> running (cron_job (fail_at 4) example_tree (start example_db)) \<and>
   disk (cron_job (fail_at 4) example_tree (start example_db)) = example_db \<and>
   logged (cron_job (fail_at 4) example_tree (start example_db)) = [ErrStmt 4]"
proof -
  have f: "stmt_fails (fail_at 4) 4" by (simp add: fail_at_def)
  have h: "running (start example_db)" "\<not> lock_held (start example_db)"
    "disk (start example_db) = example_db" "logged (start example_db) = []"
    by (simp_all add: start_def lock_held_def)
  have i: "4 < issued (scanAndSave (fail_at 4) example_tree (disk (start example_db)))"
    by (simp add: h example_abort)
  show ?thesis
    using failed_rebuild_ends_process[OF h(1,2) f i] f h i by simp
qed

text \<open>
  C3 as stated fails: a process that runs and serves the example index runs the
  scheduled rebuild, statement 4 fails, and the process is gone.
\<close>

theorem write_failure_counterexample:
  "running (start example_db) \<and>
   \<not> running (cron_job (fail_at 4) example_tree (start example_db)) \<and>
   serve no_query_faults (cron_job (fail_at 4) example_tree (start example_db))
     (request ''report'' ''file'') = None"
proof -
  have h: "running (start example_db)" "\<not> lock_held (start example_db)"
    "disk (start example_db) = example_db"
    by (simp_all add: start_def lock_held_def)
  have "\<not> running (cron_job (fail_at 4) example_tree (start example_db))"
    by (simp add: cron_job_alone[OF h(1,2)] h(3) settle_fatal example_abort)
  then show ?thesis using h(1) by (simp add: serve_def)
qed

text \<open>A rebuild that completes leaves the process running on the new generation.\<close>

lemma successful_rebuild_keeps_running:
  assumes "running p" and "\<not> lock_held p" and "outcome (scanAndSave flt es (disk p)) = Done"
  shows "running (cron_job flt es p) \<and> disk (cron_job flt es p) = store (scanAndSave flt es (disk p))
         \<and> rebuilds (cron_job flt es p) = rebuilds p \<and> logged (cron_job flt es p) = logged p"
  using assms by (simp add: cron_job_alone settle_def)

text \<open>At startup a failed first scan ends the process before the server starts.\<close>

lemma failed_first_scan_exits:
  assumes "db_stat env = NotExist"
    and "outcome (scanAndSave (scan_faults env) (tree env) empty_db) = Fatal err"
  shows "ServerStarted \<notin> set (fst (main_startup env))"
  using assms by (simp add: main_startup_def first_scan_def Let_def)

subsection \<open>The first scan\<close>

lemma first_scan_events:
  "first_scan env = (evs, d, ok) \<Longrightarrow>
     (db_stat env \<noteq> NotExist \<longrightarrow> evs = [] \<and> d = disk0 env \<and> ok) \<and>
     (db_stat env = NotExist \<longrightarrow>
        (ok \<longrightarrow> evs = [InitDB, ScanStarted, ScanFinished] \<and> initDB_ok env \<and>
                outcome (scanAndSave (scan_faults env) (tree env) empty_db) = Done \<and>
                d = store (scanAndSave (scan_faults env) (tree env) empty_db)) \<and>
        (\<not> ok \<longrightarrow> ServerStarted \<notin> set evs \<and> (ScanStarted \<in> set evs \<longleftrightarrow> initDB_ok env)))"
  by (auto simp: first_scan_def Let_def split: if_splits outcome.splits)

text \<open>
  C8. When \<^verbatim>\<open>os.Stat\<close> does not report \<^verbatim>\<open>sql.db\<close> as missing, no database is
  initialised and no scan starts before the server. When the process reaches the
  start of the server: if \<^verbatim>\<open>sql.db\<close> was missing, \<^verbatim>\<open>initDB\<close>, the start of the scan and
  its completion came first, in this order, the scan committed, and the store is the
  one it committed; otherwise the scheduler and the server are all that started and
  the store is untouched. With a valid configuration and a successful \<^verbatim>\<open>initDB\<close>, a
  scan starts exactly when \<^verbatim>\<open>sql.db\<close> is missing: nothing else is consulted.
\<close>

theorem first_scan_only_without_store:
  "(db_stat env \<noteq> NotExist \<longrightarrow>
      ScanStarted \<notin> set (fst (main_startup env)) \<and> InitDB \<notin> set (fst (main_startup env))) \<and>
   (ServerStarted \<in> set (fst (main_startup env)) \<longrightarrow>
      (if db_stat env = NotExist
       then fst (main_startup env) =
              [InitDB, ScanStarted, ScanFinished, SchedulerStarted, ServerStarted] \<and>
            outcome (scanAndSave (scan_faults env) (tree env) empty_db) = Done \<and>
            snd (main_startup env) = store (scanAndSave (scan_faults env) (tree env) empty_db)
       else fst (main_startup env) = [SchedulerStarted, ServerStarted] \<and>
            snd (main_startup env) = disk0 env)) \<and>
   (executable_ok env \<and> dotenv_ok env \<and> path_ok env \<and> time_env env \<noteq> [] \<and> initDB_ok env \<longrightarrow>
      (ScanStarted \<in> set (fst (main_startup env)) \<longleftrightarrow> db_stat env = NotExist))"
proof -
  obtain evs d ok where f: "first_scan env = (evs, d, ok)" by (cases "first_scan env")
  note F = first_scan_events[OF f]
  show ?thesis
  proof (cases "\<not> executable_ok env \<or> \<not> dotenv_ok env \<or> \<not> path_ok env \<or> time_env env = []")
    case True
    then show ?thesis by (auto simp: main_startup_def)
  next
    case False
    show ?thesis
    proof (cases ok)
      case True
      then show ?thesis using False f F
        by (cases "db_stat env = NotExist")
           (auto simp: main_startup_def split: option.splits)
    next
      case no: False
      then show ?thesis using False f F
        by (cases "db_stat env = NotExist") (auto simp: main_startup_def)
    qed
  qed
qed

lemma parse_example_time: "parse_time ''23:00'' = Some (23, 0)"
  by (simp add: parse_time_def Atoi_def digit_of_def)

lemma startup_with_store:
  "main_startup (example_env Present) = ([SchedulerStarted, ServerStarted], example_db)"
  by (simp add: main_startup_def first_scan_def example_env_def parse_example_time)

lemma example_done: "outcome (scanAndSave no_faults example_tree empty_db) = Done"
  using rebuild_tuples[of example_tree empty_db] by simp

lemma startup_without_store:
  "main_startup (example_env NotExist) =
     ([InitDB, ScanStarted, ScanFinished, SchedulerStarted, ServerStarted], example_db)"
  by (simp add: main_startup_def first_scan_def example_env_def parse_example_time example_done
      example_rebuild)

lemma example_env_fields:
  "db_stat (example_env st) = st" "tree (example_env st) = example_tree"
  "scan_faults (example_env st) = no_faults" "disk0 (example_env st) = example_db"
  "executable_ok (example_env st)" "dotenv_ok (example_env st)" "path_ok (example_env st)"
  "time_env (example_env st) = ''23:00''" "initDB_ok (example_env st)"
  by (simp_all add: example_env_def)

theorem first_scan_only_without_store_witness:
  "ScanStarted \<notin> set (fst (main_startup (example_env Present))) \<and>
   fst (main_startup (example_env NotExist)) =
     [InitDB, ScanStarted, ScanFinished, SchedulerStarted, ServerStarted] \<and>
   snd (main_startup (example_env NotExist)) = example_db"
proof -
  have p: "db_stat (example_env Present) \<noteq> NotExist" by (simp add: example_env_fields)
  have 1: "ScanStarted \<notin> set (fst (main_startup (example_env Present)))"
    using first_scan_only_without_store[of "example_env Present", THEN conjunct1] p by blast
  have s: "ServerStarted \<in> set (fst (main_startup (example_env NotExist)))"
    by (simp add: startup_without_store)
  have n: "db_stat (example_env NotExist) = NotExist" by (simp add: example_env_fields)
  have 2: "fst (main_startup (example_env NotExist)) =
              [InitDB, ScanStarted, ScanFinished, SchedulerStarted, ServerStarted] \<and>
            outcome (scanAndSave (scan_faults (example_env NotExist)) (tree (example_env NotExist)) empty_db) = Done \<and>
            snd (main_startup (example_env NotExist)) =
              store (scanAndSave (scan_faults (example_env NotExist)) (tree (example_env NotExist)) empty_db)"
    using first_scan_only_without_store[of "example_env NotExist", THEN conjunct2, THEN conjunct1] s n
    by (simp only: if_True simp_thms)
  show ?thesis using 1 2 by (simp only: example_env_fields example_rebuild simp_thms)
qed

subsection \<open>Triggers while a rebuild is in progress\<close>

lemma filter_remove_nth:
  "length (filter P (take i xs @ drop (Suc i) xs)) \<le> length (filter P xs)"
proof (induction xs arbitrary: i)
  case Nil
  then show ?case by simp
next
  case (Cons x xs)
  show ?case
  proof (cases i)
    case 0
    then show ?thesis by simp
  next
    case (Suc j)
    then show ?thesis using Cons.IH[of j] by simp
  qed
qed

lemma filter_update:
  "length (filter P (xs[i := x])) \<le> Suc (length (filter P xs))"
proof (induction xs arbitrary: i)
  case Nil
  then show ?case by simp
next
  case (Cons y ys)
  show ?case
  proof (cases i)
    case 0
    then show ?thesis by simp
  next
    case (Suc j)
    then show ?thesis using Cons.IH[of j] by simp
  qed
qed

lemma settle_lock_inv:
  assumes "lock_inv p"
  shows "lock_inv (settle r i p)"
proof (cases "outcome r")
  case Done
  have "set (take i (rebuilds p) @ drop (Suc i) (rebuilds p)) \<subseteq> set (rebuilds p)"
    using set_take_subset[of i "rebuilds p"] set_drop_subset[of "Suc i" "rebuilds p"] by auto
  then have "list_all (\<lambda>r. \<not> open_fails (r_faults r) \<and> \<not> begin_fails (r_faults r))
               (take i (rebuilds p) @ drop (Suc i) (rebuilds p))"
    using assms unfolding lock_inv_def list_all_iff by blast
  moreover have "length (filter (\<lambda>r. r_phase r = Writing) (take i (rebuilds p) @ drop (Suc i) (rebuilds p))) \<le> 1"
    using filter_remove_nth[of "\<lambda>r. r_phase r = Writing" i "rebuilds p"] assms
    unfolding lock_inv_def by linarith
  ultimately show ?thesis using Done by (simp add: settle_def lock_inv_def)
next
  case (Fatal err)
  then show ?thesis by (simp add: settle_def exit_process_def lock_inv_def)
qed

lemma step_lock_inv:
  assumes "lock_inv p"
  shows "lock_inv (step p a)"
proof (cases a)
  case (Trigger flt es)
  show ?thesis
  proof (cases "running p \<and> \<not> (open_fails flt \<or> begin_fails flt)")
    case True
    then show ?thesis using assms Trigger by (simp add: lock_inv_def)
  next
    case False
    then show ?thesis using assms Trigger settle_lock_inv by auto
  qed
next
  case (FirstWrite i)
  let ?r = "rebuilds p ! i"
  show ?thesis
  proof (cases "running p \<and> i < length (rebuilds p) \<and> r_phase ?r = Opened \<and> \<not> lock_held p
                \<and> \<not> stmt_fails (r_faults ?r) 0")
    case True
    then have s: "step p a = p\<lparr>rebuilds := (rebuilds p)[i := ?r\<lparr>r_phase := Writing\<rparr>]\<rparr>"
      using FirstWrite by (simp add: Let_def)
    have "filter (\<lambda>r. r_phase r = Writing) (rebuilds p) = []"
      using True by (auto simp: lock_held_def list_ex_iff filter_empty_conv)
    then have 1: "length (filter (\<lambda>r. r_phase r = Writing) ((rebuilds p)[i := ?r\<lparr>r_phase := Writing\<rparr>])) \<le> 1"
      using filter_update[of "\<lambda>r. r_phase r = Writing" "rebuilds p" i "?r\<lparr>r_phase := Writing\<rparr>"]
      by simp
    have "?r \<in> set (rebuilds p)" using True by simp
    then have "\<not> open_fails (r_faults ?r) \<and> \<not> begin_fails (r_faults ?r)"
      using assms unfolding lock_inv_def list_all_iff by blast
    moreover have "set ((rebuilds p)[i := ?r\<lparr>r_phase := Writing\<rparr>]) \<subseteq>
        insert (?r\<lparr>r_phase := Writing\<rparr>) (set (rebuilds p))"
      by (rule set_update_subset_insert)
    ultimately have 2: "list_all (\<lambda>r. \<not> open_fails (r_faults r) \<and> \<not> begin_fails (r_faults r))
        ((rebuilds p)[i := ?r\<lparr>r_phase := Writing\<rparr>])"
      using assms unfolding lock_inv_def list_all_iff by auto
    show ?thesis using s 1 2 by (simp add: lock_inv_def)
  next
    case False
    then show ?thesis using assms FirstWrite settle_lock_inv by (auto simp: Let_def)
  qed
next
  case (Finish i)
  then show ?thesis using assms settle_lock_inv by (auto simp: Let_def)
qed

lemma run_lock_inv: "lock_inv p \<Longrightarrow> lock_inv (run p acts)"
proof (induction acts arbitrary: p)
  case Nil
  then show ?case by (simp add: run_def)
next
  case (Cons a acts)
  then show ?case using step_lock_inv[of p a] by (simp add: run_def)
qed

lemma start_lock_inv: "lock_inv (start d)"
  by (simp add: lock_inv_def start_def)

lemma busy_first_write:
  assumes "\<not> open_fails flt" and "\<not> begin_fails flt"
  shows "outcome (scanAndSave (busy flt) es d) = Fatal (ErrStmt 0)"
    and "store (scanAndSave (busy flt) es d) = d"
proof -
  show o: "outcome (scanAndSave (busy flt) es d) = Fatal (ErrStmt 0)"
    using assms by (intro first_statement_fails) (simp_all add: busy_def)
  show "store (scanAndSave (busy flt) es d) = d"
    using aborted_store[of "busy flt" es d] o by simp
qed

text \<open>
  C9, as amended. In every state the process reaches from the start of the scheduler:
  at most one rebuild holds the write lock; a trigger always starts a further call of
  \<^verbatim>\<open>scanAndSave\<close> with a transaction of its own, also while rebuilds are in progress
  (nothing is skipped or queued); and a rebuild that runs its first statement while
  another holds the write lock fails on it, rolls back, and ends the process with
  \<^verbatim>\<open>log.Fatal\<close>, the store unchanged and the error logged.
\<close>

theorem overlapping_rebuild_ends_process:
  assumes "p = run (start d) acts"
  shows "length (filter (\<lambda>r. r_phase r = Writing) (rebuilds p)) \<le> 1 \<and>
         (running p \<and> \<not> open_fails flt \<and> \<not> begin_fails flt \<longrightarrow>
            rebuilds (step p (Trigger flt es)) =
              rebuilds p @ [\<lparr>r_phase = Opened, r_faults = flt, r_tree = es\<rparr>]) \<and>
         (running p \<and> i < length (rebuilds p) \<and> r_phase (rebuilds p ! i) = Opened \<and> lock_held p \<longrightarrow>
            \<not> running (step p (FirstWrite i)) \<and>
            disk (step p (FirstWrite i)) = disk p \<and>
            logged (step p (FirstWrite i)) = logged p @ [ErrStmt 0])"
proof -
  have inv: "lock_inv p" unfolding assms by (rule run_lock_inv[OF start_lock_inv])
  have 1: "length (filter (\<lambda>r. r_phase r = Writing) (rebuilds p)) \<le> 1"
    using inv by (simp add: lock_inv_def)
  have 2: "rebuilds (step p (Trigger flt es)) =
              rebuilds p @ [\<lparr>r_phase = Opened, r_faults = flt, r_tree = es\<rparr>]"
    if "running p \<and> \<not> open_fails flt \<and> \<not> begin_fails flt"
    using that by simp
  have 3: "\<not> running (step p (FirstWrite i)) \<and>
            disk (step p (FirstWrite i)) = disk p \<and>
            logged (step p (FirstWrite i)) = logged p @ [ErrStmt 0]"
    if h: "running p \<and> i < length (rebuilds p) \<and> r_phase (rebuilds p ! i) = Opened \<and> lock_held p"
  proof -
    let ?r = "rebuilds p ! i"
    have "?r \<in> set (rebuilds p)" using h by simp
    then have ob: "\<not> open_fails (r_faults ?r)" "\<not> begin_fails (r_faults ?r)"
      using inv unfolding lock_inv_def list_all_iff by blast+
    have s: "step p (FirstWrite i) = settle (scanAndSave (busy (r_faults ?r)) (r_tree ?r) (disk p)) i p"
      using h by (simp add: Let_def)
    show ?thesis
      unfolding s using busy_first_write[OF ob, of "r_tree ?r" "disk p"]
      by (simp add: settle_fatal)
  qed
  show ?thesis using 1 2 3 by blast
qed

text \<open>
  In the example a trigger fires while the first rebuild holds the lock, and the
  second rebuild runs its first statement.
\<close>

lemma two_triggers:
  "run (start example_db) [Trigger no_faults example_tree, FirstWrite 0, Trigger no_faults example_tree] =
     \<lparr>disk = example_db, running = True, logged = [],
      rebuilds = [\<lparr>r_phase = Writing, r_faults = no_faults, r_tree = example_tree\<rparr>,
                  \<lparr>r_phase = Opened, r_faults = no_faults, r_tree = example_tree\<rparr>]\<rparr>"
  by (simp add: run_def start_def lock_held_def Let_def no_faults_def)

theorem overlapping_rebuild_ends_process_witness:
  "\<not> running (step (run (start example_db)
       [Trigger no_faults example_tree, FirstWrite 0, Trigger no_faults example_tree]) (FirstWrite 1)) \<and>
   disk (step (run (start example_db)
       [Trigger no_faults example_tree, FirstWrite 0, Trigger no_faults example_tree]) (FirstWrite 1)) =
     example_db \<and>
   logged (step (run (start example_db)
       [Trigger no_faults example_tree, FirstWrite 0, Trigger no_faults example_tree]) (FirstWrite 1)) =
     [ErrStmt 0]"
proof -
  let ?p = "run (start example_db)
       [Trigger no_faults example_tree, FirstWrite 0, Trigger no_faults example_tree]"
  have h: "running ?p \<and> 1 < length (rebuilds ?p) \<and> r_phase (rebuilds ?p ! 1) = Opened \<and> lock_held ?p"
    unfolding two_triggers by (simp add: lock_held_def)
  have d: "disk ?p = example_db" "logged ?p = []" unfolding two_triggers by simp_all
  show ?thesis
    using overlapping_rebuild_ends_process[of ?p example_db
        "[Trigger no_faults example_tree, FirstWrite 0, Trigger no_faults example_tree]" no_faults
        example_tree 1] h d
    by simp
qed

text \<open>
  C9 as stated fails: after a trigger that fires while one rebuild is in progress two
  rebuilds are in progress, so the trigger was not a no-op.
\<close>

theorem overlapping_rebuilds_counterexample:
  "length (rebuilds (run (start example_db) [Trigger no_faults example_tree, FirstWrite 0])) = 1 \<and>
   length (rebuilds (run (start example_db)
     [Trigger no_faults example_tree, FirstWrite 0, Trigger no_faults example_tree])) = 2 \<and>
   run (start example_db)
     [Trigger no_faults example_tree, FirstWrite 0, Trigger no_faults example_tree] \<noteq>
   run (start example_db) [Trigger no_faults example_tree, FirstWrite 0]"
proof -
  have 1: "length (rebuilds (run (start example_db) [Trigger no_faults example_tree, FirstWrite 0])) = 1"
    by (simp add: run_def start_def lock_held_def Let_def no_faults_def)
  have 2: "length (rebuilds (run (start example_db)
     [Trigger no_faults example_tree, FirstWrite 0, Trigger no_faults example_tree])) = 2"
    unfolding two_triggers by simp
  show ?thesis using 1 2 by auto
qed

end
